theory Spec2Isabelle
  imports Complex_Main "HOL-Library.Log_Nat"
begin

section \<open>Numbers\<close>

text \<open>
  A number of JavaScript is an IEEE 754 double. The values that the program computes are
  never negative, and a non-negative finite double is kept as the rational number it
  stands for. The result of an arithmetic operation is the exact result rounded to the
  nearest double, a tie going to the double with the even significand: a double has a
  significand of 53 bits, and below \<open>2 powi (- 1022)\<close> the doubles lie \<open>2 powi (- 1074)\<close>
  apart.

  \<open>expo x\<close> is the exponent \<open>e\<close> with \<open>2 powi e \<le> x < 2 powi (e + 1)\<close>, for \<open>x > 0\<close>;
  \<open>ulp x\<close> is the distance between the doubles around \<open>x\<close>; \<open>rne\<close> rounds to the nearest
  integer, a tie to the even one; \<open>double x\<close> is the double nearest to \<open>x \<ge> 0\<close>.
\<close>

definition expo :: "rat \<Rightarrow> int" where
  "expo x = (if 1 \<le> x then bitlen \<lfloor>x\<rfloor> - 1 else - bitlen (\<lceil>1 / x\<rceil> - 1))"

definition ulp :: "rat \<Rightarrow> rat" where
  "ulp x = 2 powi (max (expo x) (- 1022) - 52)"

definition rne :: "rat \<Rightarrow> int" where
  "rne q =
     (if q - of_int \<lfloor>q\<rfloor> < 1 / 2 then \<lfloor>q\<rfloor>
      else if 1 / 2 < q - of_int \<lfloor>q\<rfloor> then \<lfloor>q\<rfloor> + 1
      else if even \<lfloor>q\<rfloor> then \<lfloor>q\<rfloor> else \<lfloor>q\<rfloor> + 1)"

definition double :: "rat \<Rightarrow> rat" where
  "double x = (if x \<le> 0 then 0 else of_int (rne (x / ulp x)) * ulp x)"

text \<open>
  The value of an expression: NaN, Infinity, or a finite double. An exact result from
  \<open>2 ^ 1024 - 2 ^ 970\<close> on, half a step above the largest double, rounds to Infinity.
\<close>

datatype number = NaN | Infinity | Number rat

definition to_number :: "rat \<Rightarrow> number" where
  "to_number x = (if 2 ^ 1024 - 2 ^ 970 \<le> x then Infinity else Number (double x))"

text \<open>\<^verbatim>\<open>prev + curr\<close>, for a finite \<^verbatim>\<open>curr\<close> that is not negative, here \<open>c\<close>.\<close>

definition plus_number :: "number \<Rightarrow> rat \<Rightarrow> number" where
  "plus_number prev c =
     (case prev of
        NaN \<Rightarrow> NaN
      | Infinity \<Rightarrow> Infinity
      | Number p \<Rightarrow> to_number (p + c))"

text \<open>\<^verbatim>\<open>t / n\<close>, for the length \<open>n\<close> of an array: zero by zero is NaN.\<close>

definition divide_number :: "number \<Rightarrow> nat \<Rightarrow> number" where
  "divide_number tot n =
     (case tot of
        NaN \<Rightarrow> NaN
      | Infinity \<Rightarrow> Infinity
      | Number t \<Rightarrow>
          if n = 0 then (if t = 0 then NaN else Infinity)
          else to_number (t / of_nat n))"

section \<open>The random source\<close>

text \<open>
  \<^verbatim>\<open>Math.random()\<close> returns a double \<open>r\<close> with \<open>0 \<le> r < 1\<close>; which of these doubles, and
  how likely each, is left to the engine.
\<close>

typedef draw = "{r :: rat. 0 \<le> r \<and> r < 1 \<and> double r = r}"
  by (rule exI [of _ 0]) (simp add: double_def)

setup_lifting type_definition_draw

lift_definition the_draw :: "rat \<Rightarrow> draw"
  is "\<lambda>r. if 0 \<le> r \<and> r < 1 \<and> double r = r then r else 0"
  by (simp add: double_def)

text \<open>
  The values returned by the successive calls of \<^verbatim>\<open>Math.random()\<close>, from now on:
  \<open>rnd k\<close> is what the call number \<open>k\<close> returns.
\<close>

type_synonym random = "nat \<Rightarrow> draw"

definition shift :: "nat \<Rightarrow> random \<Rightarrow> random" where
  "shift n rnd = (\<lambda>k. rnd (n + k))"

text \<open>
  \<^verbatim>\<open>Math.floor(Math.random() * this.houses.length)\<close>, for the draw \<open>r\<close> and the length
  \<open>n\<close>: the product is a product of doubles, and is rounded. The length of an array is
  below \<open>2 ^ 32\<close>, so it is a double.
\<close>

definition randomHouseNumber :: "draw \<Rightarrow> nat \<Rightarrow> nat" where
  "randomHouseNumber r n = nat \<lfloor>double (Rep_draw r * of_nat n)\<rfloor>"

section \<open>Class Simulation\<close>

text \<open>
  What \<^verbatim>\<open>onDone\<close> of a simulation is bound to: the method of the class, which only logs,
  or one of the two closures that \<^verbatim>\<open>initSynchronousSimulations\<close> assigns. A closure
  over the simulation \<^verbatim>\<open>current\<close> holds the position of that object in
  \<^verbatim>\<open>this.simulations\<close>.
\<close>

datatype handler = NotDefined | AddAndStart nat | AddAndRender

record simulation =
  zombies :: nat
  day :: nat
  houses :: "bool list"
  timer :: "nat option"
  onDone :: handler

datatype error = RangeError | TypeError

text \<open>
  The constructor, for the option \<^verbatim>\<open>numberOfHouses\<close>. \<^verbatim>\<open>new Array(n)\<close> throws a
  RangeError unless \<open>0 \<le> n < 2^32\<close>. The timer is undefined until \<^verbatim>\<open>start()\<close>.
\<close>

definition Simulation :: "int \<Rightarrow> error + simulation" where
  "Simulation numberOfHouses =
     (if numberOfHouses < 0 \<or> 2 ^ 32 \<le> numberOfHouses then Inl RangeError
      else Inr \<lparr>zombies = 1, day = 0, houses = replicate (nat numberOfHouses) False,
                timer = None, onDone = NotDefined\<rparr>)"

text \<open>
  The body of the loop of \<^verbatim>\<open>tick\<close>, for the draw \<open>r\<close>: the house array and the tally
  \<^verbatim>\<open>newlyInfected\<close> before and after. Reading past the end of the array gives
  \<^verbatim>\<open>undefined\<close>, which is falsy, and assigning at the index \<open>length\<close> appends; the
  index is never beyond that (\<open>randomHouseNumber_le\<close> below).
\<close>

definition enter :: "draw \<Rightarrow> bool list \<times> nat \<Rightarrow> bool list \<times> nat" where
  "enter r = (\<lambda>(hs, newlyInfected).
     let randomHouseNumber = randomHouseNumber r (length hs) in
     if \<not> (randomHouseNumber < length hs \<and> hs ! randomHouseNumber)
     then ((if randomHouseNumber < length hs then hs[randomHouseNumber := True] else hs @ [True]),
           newlyInfected + 1)
     else (hs, newlyInfected))"

text \<open>\<^verbatim>\<open>for (let zombie = 0; zombie < this.zombies; zombie++)\<close>, one draw each time round.\<close>

function tick_loop :: "random \<Rightarrow> nat \<Rightarrow> nat \<Rightarrow> bool list \<times> nat \<Rightarrow> bool list \<times> nat" where
  "tick_loop rnd zs zombie st =
     (if zombie < zs then tick_loop rnd zs (zombie + 1) (enter (rnd zombie) st) else st)"
  by pat_completeness auto
termination
  by (relation "measure (\<lambda>(rnd, zs, zombie, st). zs - zombie)") auto

declare tick_loop.simps [simp del]

text \<open>\<^verbatim>\<open>!this.houses.includes(false)\<close>: no house is left uninfected.\<close>

definition all_infected :: "bool list \<Rightarrow> bool" where
  "all_infected hs = (False \<notin> set hs)"

text \<open>
  \<^verbatim>\<open>tick()\<close>. The second component says whether the last branch was taken, that is
  whether \<^verbatim>\<open>this.stop()\<close> and \<^verbatim>\<open>this.onDone(this)\<close> were called; what these do to the
  timers and to the application is applied by \<open>fire\<close> below. \<^verbatim>\<open>this.render()\<close> only
  writes to the page.
\<close>

definition tick :: "random \<Rightarrow> simulation \<Rightarrow> simulation \<times> bool" where
  "tick rnd s =
     (let s1 = s\<lparr>day := day s + 1\<rparr>;
          (hs, newlyInfected) = tick_loop rnd (zombies s1) 0 (houses s1, 0);
          s2 = s1\<lparr>houses := hs, zombies := zombies s1 + newlyInfected\<rparr>
      in (s2, all_infected (houses s2)))"

text \<open>The timer calling \<^verbatim>\<open>tick()\<close> \<open>n\<close> times in a row, whatever the ticks answer.\<close>

fun ticks :: "nat \<Rightarrow> random \<Rightarrow> simulation \<Rightarrow> simulation" where
  "ticks 0 rnd s = s"
| "ticks (Suc n) rnd s = ticks n (shift (zombies s) rnd) (fst (tick rnd s))"

text \<open>The number of houses marked infected.\<close>

definition infected :: "bool list \<Rightarrow> nat" where
  "infected hs = length (filter (\<lambda>h. h) hs)"

section \<open>What the specification says of a day\<close>

text \<open>
  \<open>advanceOneDay\<close> in the words of the specification, for the indices that the zombies
  of this step draw, one each and in order: the day counter goes up by one; a house that
  is drawn and is uninfected is marked infected and counted in the tally; the tally is
  added to the zombie count; the run is complete if no house remains uninfected.
\<close>

definition visit :: "nat \<Rightarrow> bool list \<times> nat \<Rightarrow> bool list \<times> nat" where
  "visit i = (\<lambda>(hs, tally). if hs ! i then (hs, tally) else (hs[i := True], tally + 1))"

definition advanceOneDay_spec :: "nat list \<Rightarrow> simulation \<Rightarrow> simulation \<times> bool" where
  "advanceOneDay_spec drawn s =
     (let (hs, tally) = fold visit drawn (houses s, 0)
      in (s\<lparr>day := day s + 1, houses := hs, zombies := zombies s + tally\<rparr>,
          False \<notin> set hs))"

text \<open>The degenerate random source: every draw is 0, so every index drawn is 0.\<close>

definition always_zero :: random where
  "always_zero = (\<lambda>k. the_draw 0)"

text \<open>A random source whose first draw is 0 and whose later draws are all 1/2.\<close>

definition zero_then_half :: random where
  "zero_then_half = (\<lambda>k. the_draw (if k = 0 then 0 else 1 / 2))"

text \<open>The number of draws that \<open>n\<close> ticks in a row take from the random source.\<close>

fun draws :: "nat \<Rightarrow> random \<Rightarrow> simulation \<Rightarrow> nat" where
  "draws 0 rnd s = 0"
| "draws (Suc n) rnd s = zombies s + draws n (shift (zombies s) rnd) (fst (tick rnd s))"


section \<open>Class Results\<close>

text \<open>
  The object holds the array \<^verbatim>\<open>this.results\<close> of day counts (and the element of the page
  to write to). \<^verbatim>\<open>add(days)\<close> pushes.
\<close>

definition add :: "nat \<Rightarrow> nat list \<Rightarrow> nat list" where
  "add days results = results @ [days]"

text \<open>
  What \<^verbatim>\<open>render()\<close> computes and writes in its sentence: \<^verbatim>\<open>iterations\<close> and
  \<^verbatim>\<open>averageDays\<close>. The elements of the array are day counts, which are doubles; the sum
  is rounded at each addition, and so is the quotient.
\<close>

record summary =
  iterations :: nat
  averageDays :: number

definition render :: "nat list \<Rightarrow> summary" where
  "render results =
     (let iterations = length results;
          totalDays = foldl (\<lambda>prev curr. plus_number prev (of_nat curr)) (Number 0) results;
          averageDays = divide_number totalDays iterations
      in \<lparr>iterations = iterations, averageDays = averageDays\<rparr>)"

section \<open>Class Application, and the timers of the page\<close>

text \<open>
  The application object, with what its methods reach outside it: the interval timers
  that are running, each with its identifier and the position in \<^verbatim>\<open>this.simulations\<close> of
  the simulation whose \<^verbatim>\<open>tick()\<close> it calls; the identifier that the next
  \<^verbatim>\<open>setInterval\<close> returns; and what \<^verbatim>\<open>this.results.render()\<close> has written to the page,
  if it has been called. The field \<open>calls\<close> records every call of \<^verbatim>\<open>onDone\<close> made so far:
  the position of the simulation that made it and the \<^verbatim>\<open>day\<close> of the state it passed.
\<close>

record application =
  simulations :: "simulation list"
  results :: "nat list"
  page :: "summary option"
  intervals :: "(nat \<times> nat) list"
  next_timer :: nat
  calls :: "(nat \<times> nat) list"

text \<open>
  \<^verbatim>\<open>new Array(n).fill().map(() => new Simulation(...))\<close> for an array length \<open>n\<close>: the
  first constructor that throws ends the map.
\<close>

fun map_Simulation :: "nat \<Rightarrow> int \<Rightarrow> error + simulation list" where
  "map_Simulation 0 numberOfHouses = Inr []"
| "map_Simulation (Suc n) numberOfHouses =
     (case Simulation numberOfHouses of
        Inl e \<Rightarrow> Inl e
      | Inr s \<Rightarrow> (case map_Simulation n numberOfHouses of
                    Inl e \<Rightarrow> Inl e
                  | Inr ss \<Rightarrow> Inr (s # ss)))"

text \<open>
  \<^verbatim>\<open>initSynchronousSimulations()\<close>. \<^verbatim>\<open>reduce\<close> without an initial value throws a
  TypeError on an empty array; otherwise it calls its function for the positions 1 to
  \<open>length - 1\<close> as \<^verbatim>\<open>current\<close>, with the element before as \<^verbatim>\<open>prev\<close>. The last
  assignment is at the position \<^verbatim>\<open>numberOfSimulations - 1\<close>, the last of the array.
\<close>

definition initSynchronousSimulations :: "simulation list \<Rightarrow> error + simulation list" where
  "initSynchronousSimulations sims =
     (if sims = [] then Inl TypeError
      else
        let chained =
              fold (\<lambda>current ss. ss[current - 1 := (ss ! (current - 1))\<lparr>onDone := AddAndStart current\<rparr>])
                [1..<length sims] sims
        in Inr (chained[length sims - 1 := (chained ! (length sims - 1))\<lparr>onDone := AddAndRender\<rparr>]))"

text \<open>
  The constructor, for the options \<^verbatim>\<open>numberOfSimulations\<close> and \<^verbatim>\<open>numberOfHouses\<close>
  (\<^verbatim>\<open>root\<close> and \<^verbatim>\<open>delay\<close> only reach the page and the timer). \<^verbatim>\<open>new Array(n)\<close> throws a
  RangeError unless \<open>0 \<le> n < 2^32\<close>.
\<close>

definition Application :: "int \<Rightarrow> int \<Rightarrow> error + application" where
  "Application numberOfSimulations numberOfHouses =
     (if numberOfSimulations < 0 \<or> 2 ^ 32 \<le> numberOfSimulations then Inl RangeError
      else
        case map_Simulation (nat numberOfSimulations) numberOfHouses of
          Inl e \<Rightarrow> Inl e
        | Inr sims \<Rightarrow>
            (case initSynchronousSimulations sims of
               Inl e \<Rightarrow> Inl e
             | Inr sims' \<Rightarrow>
                 Inr \<lparr>simulations = sims', results = [], page = None, intervals = [],
                      next_timer = 1, calls = []\<rparr>))"

text \<open>\<^verbatim>\<open>start()\<close> of the simulation at the position \<open>i\<close>: \<^verbatim>\<open>this.timer = setInterval(...)\<close>.\<close>

definition start :: "nat \<Rightarrow> application \<Rightarrow> application" where
  "start i a =
     a\<lparr>simulations := (simulations a)[i := (simulations a ! i)\<lparr>timer := Some (next_timer a)\<rparr>],
       intervals := intervals a @ [(next_timer a, i)],
       next_timer := next_timer a + 1\<rparr>"

text \<open>
  \<^verbatim>\<open>stop()\<close> of the simulation at the position \<open>i\<close>: \<^verbatim>\<open>clearInterval(this.timer)\<close>, which
  does nothing for \<^verbatim>\<open>undefined\<close> or for a timer that is not running.
\<close>

definition stop :: "nat \<Rightarrow> application \<Rightarrow> application" where
  "stop i a =
     (case timer (simulations a ! i) of
        None \<Rightarrow> a
      | Some t \<Rightarrow> a\<lparr>intervals := filter (\<lambda>(t', i'). t' \<noteq> t) (intervals a)\<rparr>)"

text \<open>
  \<^verbatim>\<open>this.onDone(this)\<close> of the simulation at the position \<open>i\<close>: the method of the class
  logs to the console; the closures do \<^verbatim>\<open>this.results.add(state.day)\<close> and then either
  \<^verbatim>\<open>current.start()\<close> or \<^verbatim>\<open>this.results.render()\<close>.
\<close>

definition call_onDone :: "nat \<Rightarrow> application \<Rightarrow> application" where
  "call_onDone i a =
     (let state = simulations a ! i;
          a = a\<lparr>calls := calls a @ [(i, day state)]\<rparr>
      in case onDone state of
           NotDefined \<Rightarrow> a
         | AddAndStart current \<Rightarrow> start current (a\<lparr>results := add (day state) (results a)\<rparr>)
         | AddAndRender \<Rightarrow>
             (let a = a\<lparr>results := add (day state) (results a)\<rparr>
              in a\<lparr>page := Some (render (results a))\<rparr>))"

text \<open>
  A running timer calls \<^verbatim>\<open>tick()\<close> of the simulation at the position \<open>i\<close>, with the
  draws \<open>rnd\<close>: the tick, and then \<^verbatim>\<open>this.stop()\<close> and \<^verbatim>\<open>this.onDone(this)\<close> if its last
  branch is taken.
\<close>

definition fire :: "random \<Rightarrow> nat \<Rightarrow> application \<Rightarrow> application" where
  "fire rnd i a =
     (let (s, done) = tick rnd (simulations a ! i);
          a = a\<lparr>simulations := (simulations a)[i := s]\<rparr>
      in if done then call_onDone i (stop i a) else a)"

text \<open>\<^verbatim>\<open>run()\<close>\<close>

definition run :: "application \<Rightarrow> application" where
  "run a = start 0 a"

text \<open>
  One callback of the page at a time: some running timer fires, with whatever the random
  source then gives.
\<close>

inductive step :: "application \<Rightarrow> application \<Rightarrow> bool" where
  fires: "(t, i) \<in> set (intervals a) \<Longrightarrow> step a (fire rnd i a)"

text \<open>
  What holds of an application of \<open>k\<close> simulations between two callbacks, once \<^verbatim>\<open>run()\<close>
  has been called: with \<open>j\<close> results recorded, the only running timer is that of the
  simulation \<open>j\<close>, the simulations before it are complete and their days recorded, those
  after it have not been started, and the page is written once all \<open>k\<close> are recorded.
\<close>

definition sequenced :: "nat \<Rightarrow> application \<Rightarrow> bool" where
  "sequenced k a \<longleftrightarrow>
     length (simulations a) = k \<and> length (results a) \<le> k
   \<and> (\<forall>i<k. onDone (simulations a ! i) =
         (if Suc i = k then AddAndRender else AddAndStart (Suc i)))
   \<and> (if length (results a) < k
       then \<exists>t. intervals a = [(t, length (results a))]
              \<and> timer (simulations a ! length (results a)) = Some t
       else intervals a = [])
   \<and> (\<forall>i<length (results a). all_infected (houses (simulations a ! i))
         \<and> results a ! i = day (simulations a ! i))
   \<and> (\<forall>i<k. length (results a) < i \<longrightarrow> timer (simulations a ! i) = None)
   \<and> calls a = map (\<lambda>i. (i, results a ! i)) [0..<length (results a)]
   \<and> page a = (if length (results a) < k then None else Some (render (results a)))"

text \<open>The simulations that have not recorded a result still have an uninfected house.\<close>

definition unfinished :: "application \<Rightarrow> bool" where
  "unfinished a \<longleftrightarrow>
     (\<forall>i<length (simulations a). length (results a) \<le> i \<longrightarrow>
        houses (simulations a ! i) \<noteq> [] \<and> \<not> all_infected (houses (simulations a ! i)))"

section \<open>Rounding to a double\<close>

lemma two_powi_mono: "e \<le> e' \<Longrightarrow> (2 :: rat) powi e \<le> 2 powi e'"
  by (rule power_int_increasing) simp_all

lemma two_powi_less_cancel: "(2 :: rat) powi e < 2 powi e' \<Longrightarrow> e < e'"
proof (rule ccontr)
  assume "2 powi e < (2 :: rat) powi e'" and "\<not> e < e'"
  then have "(2 :: rat) powi e' \<le> 2 powi e"
    by (simp add: two_powi_mono)
  with \<open>2 powi e < (2 :: rat) powi e'\<close> show False
    by simp
qed

lemma expo_bounds:
  assumes "0 < x"
  shows "2 powi expo x \<le> x" and "x < 2 powi (expo x + 1)"
proof -
  have "2 powi expo x \<le> x \<and> x < 2 powi (expo x + 1)"
  proof (cases "1 \<le> x")
    case True
    define m where "m = \<lfloor>x\<rfloor>"
    define b where "b = bitlen m"
    have m: "1 \<le> m" "of_int m \<le> x" "x < of_int m + 1"
      using True unfolding m_def by linarith+
    then have "0 < m"
      by simp
    from bitlen_bounds [OF this]
    have lo: "2 ^ nat (b - 1) \<le> m" and hi: "m < 2 ^ nat b"
      by (simp_all add: b_def)
    have b1: "1 \<le> b"
    proof (rule ccontr)
      assume "\<not> 1 \<le> b"
      then have "nat b = 0"
        by simp
      with hi m(1) show False
        by simp
    qed
    have e: "expo x = b - 1"
      using True by (simp add: expo_def b_def m_def)
    have "(2 :: rat) powi (b - 1) = of_int (2 ^ nat (b - 1))"
      using b1 by (simp add: power_int_nonneg_exp)
    also have "\<dots> \<le> of_int m"
      using lo by (simp only: of_int_le_iff)
    finally have 1: "2 powi (b - 1) \<le> x"
      using m(2) by simp
    have "m + 1 \<le> 2 ^ nat b"
      using hi by simp
    then have "(of_int (m + 1) :: rat) \<le> of_int (2 ^ nat b)"
      by (simp only: of_int_le_iff)
    also have "\<dots> = 2 powi b"
      using b1 by (simp add: power_int_nonneg_exp)
    finally have 2: "x < 2 powi b"
      using m(3) by simp
    from 1 2 show ?thesis
      by (simp add: e)
  next
    case False
    define y where "y = 1 / x"
    define m where "m = \<lceil>y\<rceil> - 1"
    define b where "b = bitlen m"
    have y1: "1 < y"
      using False assms by (simp add: y_def)
    have m: "of_int m < y" "y \<le> of_int m + 1"
      unfolding m_def by linarith+
    have "1 < \<lceil>y\<rceil>"
      using y1 by linarith
    then have mpos: "0 < m"
      by (simp add: m_def)
    from bitlen_bounds [OF this]
    have lo: "2 ^ nat (b - 1) \<le> m" and hi: "m < 2 ^ nat b"
      by (simp_all add: b_def)
    have b1: "1 \<le> b"
    proof (rule ccontr)
      assume "\<not> 1 \<le> b"
      then have "nat b = 0"
        by simp
      with hi mpos show False
        by simp
    qed
    have e: "expo x = - b"
      using False by (simp add: expo_def b_def m_def y_def)
    have x: "x = 1 / y" and ypos: "0 < y"
      using assms by (simp_all add: y_def)
    have "m + 1 \<le> 2 ^ nat b"
      using hi by simp
    then have "(of_int (m + 1) :: rat) \<le> of_int (2 ^ nat b)"
      by (simp only: of_int_le_iff)
    moreover have "(of_int (2 ^ nat b) :: rat) = 2 ^ nat b" "(of_int (m + 1) :: rat) = of_int m + 1"
      by simp_all
    ultimately have "y \<le> 2 ^ nat b"
      using m(2) by linarith
    then have "1 / (2 :: rat) ^ nat b \<le> 1 / y"
      using ypos by (simp add: frac_le)
    moreover have "(2 :: rat) powi (- b) = 1 / 2 ^ nat b"
      using b1 by (simp add: power_int_minus_divide power_int_nonneg_exp)
    ultimately have 1: "2 powi (- b) \<le> x"
      by (simp add: x)
    have "(of_int (2 ^ nat (b - 1)) :: rat) \<le> of_int m"
      using lo by (simp only: of_int_le_iff)
    moreover have "(of_int (2 ^ nat (b - 1)) :: rat) = 2 ^ nat (b - 1)"
      by simp
    ultimately have "(2 :: rat) ^ nat (b - 1) < y"
      using m(1) by linarith
    then have "1 / y < 1 / (2 :: rat) ^ nat (b - 1)"
      by (simp add: frac_less2)
    moreover have "(2 :: rat) powi (- b + 1) = 1 / 2 ^ nat (b - 1)"
    proof -
      have "(2 :: rat) powi (- b + 1) = 2 powi (- (b - 1))"
        by simp
      also have "\<dots> = 1 / 2 powi (b - 1)"
        by (rule power_int_minus_divide)
      also have "\<dots> = 1 / 2 ^ nat (b - 1)"
        using b1 by (simp add: power_int_nonneg_exp)
      finally show ?thesis .
    qed
    ultimately have 2: "x < 2 powi (- b + 1)"
      by (simp add: x)
    from 1 2 show ?thesis
      by (simp add: e)
  qed
  then show "2 powi expo x \<le> x" and "x < 2 powi (expo x + 1)"
    by simp_all
qed

lemma expo_unique:
  assumes "0 < x" and "2 powi e \<le> x" and "x < 2 powi (e + 1)"
  shows "expo x = e"
proof -
  note b = expo_bounds [OF assms(1)]
  have "(2 :: rat) powi e < 2 powi (expo x + 1)"
    using assms(2) b(2) by simp
  then have "e < expo x + 1"
    by (rule two_powi_less_cancel)
  moreover have "(2 :: rat) powi expo x < 2 powi (e + 1)"
    using assms(3) b(1) by simp
  then have "expo x < e + 1"
    by (rule two_powi_less_cancel)
  ultimately show ?thesis
    by simp
qed

lemma rne_cases:
  "rne q = \<lfloor>q\<rfloor> \<and> q - of_int \<lfloor>q\<rfloor> \<le> 1 / 2
   \<or> rne q = \<lfloor>q\<rfloor> + 1 \<and> 1 / 2 \<le> q - of_int \<lfloor>q\<rfloor>"
  unfolding rne_def by (cases "q - of_int \<lfloor>q\<rfloor> < 1 / 2") auto

lemma rne_bounds: "of_int (rne q) \<le> q + 1 / 2" "q - 1 / 2 \<le> of_int (rne q)"
proof -
  have f: "of_int \<lfloor>q\<rfloor> \<le> q" "q < of_int \<lfloor>q\<rfloor> + 1"
    by linarith+
  from rne_cases [of q] show "of_int (rne q) \<le> q + 1 / 2"
  proof
    assume "rne q = \<lfloor>q\<rfloor> \<and> q - of_int \<lfloor>q\<rfloor> \<le> 1 / 2"
    then have "of_int (rne q) = (of_int \<lfloor>q\<rfloor> :: rat)" by simp
    with f show ?thesis by linarith
  next
    assume "rne q = \<lfloor>q\<rfloor> + 1 \<and> 1 / 2 \<le> q - of_int \<lfloor>q\<rfloor>"
    then have "of_int (rne q) = (of_int \<lfloor>q\<rfloor> :: rat) + 1"
      and "1 / 2 \<le> q - of_int \<lfloor>q\<rfloor>" by simp_all
    then show ?thesis by linarith
  qed
  from rne_cases [of q] show "q - 1 / 2 \<le> of_int (rne q)"
  proof
    assume "rne q = \<lfloor>q\<rfloor> \<and> q - of_int \<lfloor>q\<rfloor> \<le> 1 / 2"
    then have "of_int (rne q) = (of_int \<lfloor>q\<rfloor> :: rat)"
      and "q - of_int \<lfloor>q\<rfloor> \<le> 1 / 2" by simp_all
    then show ?thesis by linarith
  next
    assume "rne q = \<lfloor>q\<rfloor> + 1 \<and> 1 / 2 \<le> q - of_int \<lfloor>q\<rfloor>"
    then have "of_int (rne q) = (of_int \<lfloor>q\<rfloor> :: rat) + 1" by simp
    with f show ?thesis by linarith
  qed
qed

lemma rne_floor: "\<lfloor>q\<rfloor> \<le> rne q" "rne q \<le> \<lfloor>q\<rfloor> + 1"
  using rne_cases [of q] by auto

lemma rne_same_floor:
  assumes "q \<le> q'" and "\<lfloor>q\<rfloor> = \<lfloor>q'\<rfloor>"
  shows "rne q \<le> rne q'"
proof (rule ccontr)
  assume "\<not> rne q \<le> rne q'"
  with rne_floor [of q] rne_floor [of q'] assms(2)
  have hi: "rne q = \<lfloor>q\<rfloor> + 1" and lo: "rne q' = \<lfloor>q\<rfloor>"
    by simp_all
  from hi rne_cases [of q] have 1: "1 / 2 \<le> q - of_int \<lfloor>q\<rfloor>"
    by simp
  from lo rne_cases [of q'] assms(2) have 2: "q' - of_int \<lfloor>q\<rfloor> \<le> 1 / 2"
    by simp
  from 1 2 assms(1) have "q = q'"
    by simp
  with hi lo show False
    by simp
qed

lemma rne_of_int [simp]: "rne (of_int m) = m"
  by (simp add: rne_def)

lemma rne_mono:
  assumes "q \<le> q'"
  shows "rne q \<le> rne q'"
proof (cases "\<lfloor>q\<rfloor> = \<lfloor>q'\<rfloor>")
  case True
  with assms show ?thesis
    by (rule rne_same_floor)
next
  case False
  then have "\<lfloor>q\<rfloor> + 1 \<le> \<lfloor>q'\<rfloor>"
    using floor_mono [OF assms] by simp
  with rne_floor(2) [of q] rne_floor(1) [of q'] show ?thesis
    by simp
qed

lemma ulp_pos: "0 < ulp x"
  by (simp add: ulp_def)

lemma double_nonneg [simp]: "0 \<le> double x"
proof (cases "x \<le> 0")
  case True
  then show ?thesis by (simp add: double_def)
next
  case False
  then have "0 \<le> x / ulp x"
    using ulp_pos [of x] by (simp add: divide_nonneg_pos)
  then have "rne 0 \<le> rne (x / ulp x)"
    by (rule rne_mono)
  then have "0 \<le> rne (x / ulp x)"
    using rne_of_int [of 0] by simp
  then have "0 \<le> of_int (rne (x / ulp x)) * ulp x"
    using ulp_pos [of x] by (simp add: less_imp_le)
  with False show ?thesis
    by (simp add: double_def)
qed

lemma double_zero [simp]: "double 0 = 0"
  by (simp add: double_def)

lemma double_error:
  assumes "0 < x"
  shows "double x \<le> x + ulp x / 2" and "x - ulp x / 2 \<le> double x"
proof -
  have d: "double x = of_int (rne (x / ulp x)) * ulp x"
    using assms by (simp add: double_def)
  have u: "0 \<le> ulp x"
    using ulp_pos [of x] by linarith
  have "of_int (rne (x / ulp x)) * ulp x \<le> (x / ulp x + 1 / 2) * ulp x"
    and "(x / ulp x - 1 / 2) * ulp x \<le> of_int (rne (x / ulp x)) * ulp x"
    by (rule mult_right_mono [OF rne_bounds(1) u], rule mult_right_mono [OF rne_bounds(2) u])
  moreover have "(x / ulp x + 1 / 2) * ulp x = x + ulp x / 2"
    "(x / ulp x - 1 / 2) * ulp x = x - ulp x / 2"
  proof -
    have "ulp x \<noteq> 0"
      using ulp_pos [of x] by linarith
    then show "(x / ulp x + 1 / 2) * ulp x = x + ulp x / 2"
      "(x / ulp x - 1 / 2) * ulp x = x - ulp x / 2"
      by (simp_all add: field_simps)
  qed
  ultimately show "double x \<le> x + ulp x / 2" and "x - ulp x / 2 \<le> double x"
    by (simp_all add: d)
qed


lemma two_powi_le_cancel: "(2 :: rat) powi e \<le> 2 powi e' \<Longrightarrow> e \<le> e'"
proof (rule ccontr)
  assume le: "2 powi e \<le> (2 :: rat) powi e'" and "\<not> e \<le> e'"
  then have "e' < e"
    by simp
  then have "(2 :: rat) powi e' < 2 powi e"
    by (rule power_int_strict_increasing) simp
  with le show False
    by simp
qed

lemma two_powi_diff: "(2 :: rat) powi a / 2 powi b = 2 powi (a - b)"
  by (simp add: power_int_diff)

lemma two_powi_add: "(2 :: rat) powi a * 2 powi b = 2 powi (a + b)"
  by (simp add: power_int_add)

lemma two_powi_nat: "0 \<le> k \<Longrightarrow> (2 :: rat) powi k = of_int (2 ^ nat k)"
  by (simp add: power_int_nonneg_exp)

lemma expo_mono:
  assumes "0 < x" and "x \<le> y"
  shows "expo x \<le> expo y"
proof -
  have "0 < y"
    using assms by simp
  from expo_bounds(1) [OF assms(1)] expo_bounds(2) [OF this] assms(2)
  have "(2 :: rat) powi expo x < 2 powi (expo y + 1)"
    by simp
  then have "expo x < expo y + 1"
    by (rule two_powi_less_cancel)
  then show ?thesis
    by simp
qed

lemma ulp_eq: "ulp x = 2 powi (max (expo x) (- 1022) - 52)"
  by (simp add: ulp_def)

lemma quotient_ulp_less:
  assumes "0 < x"
  shows "x / ulp x < 2 ^ 53"
proof -
  have "x < 2 powi (expo x + 1)"
    by (rule expo_bounds(2) [OF assms])
  also have "\<dots> \<le> 2 powi (max (expo x) (- 1022) + 1)"
    by (rule two_powi_mono) simp
  finally have "x / ulp x < 2 powi (max (expo x) (- 1022) + 1) / ulp x"
    using ulp_pos [of x] by (simp add: divide_strict_right_mono)
  also have "\<dots> = 2 powi 53"
    unfolding ulp_eq two_powi_diff by simp
  finally show ?thesis
    by simp
qed

lemma quotient_ulp_ge:
  assumes "0 < x" and "- 1022 \<le> expo x"
  shows "2 ^ 52 \<le> x / ulp x"
proof -
  have u: "ulp x = 2 powi (expo x - 52)"
    using assms(2) by (simp add: ulp_def max_def)
  have "2 powi expo x / ulp x \<le> x / ulp x"
    using expo_bounds(1) [OF assms(1)] ulp_pos [of x] by (simp add: divide_right_mono)
  moreover have "2 powi expo x / ulp x = 2 powi 52"
    unfolding u two_powi_diff by simp
  ultimately show ?thesis
    by simp
qed

lemma double_eq: "0 < x \<Longrightarrow> double x = of_int (rne (x / ulp x)) * ulp x"
  by (simp add: double_def)

lemma double_le_powi:
  assumes "0 < x"
  shows "double x \<le> 2 powi (max (expo x) (- 1022) + 1)"
proof -
  have "rne (x / ulp x) \<le> rne (of_int (2 ^ 53))"
    using quotient_ulp_less [OF assms] by (intro rne_mono) simp
  then have "rne (x / ulp x) \<le> 2 ^ 53"
    by (simp only: rne_of_int)
  then have "(of_int (rne (x / ulp x)) :: rat) \<le> of_int (2 ^ 53)"
    by (simp only: of_int_le_iff)
  then have "of_int (rne (x / ulp x)) * ulp x \<le> of_int (2 ^ 53) * ulp x"
    using ulp_pos [of x] by (intro mult_right_mono) simp_all
  also have "of_int (2 ^ 53) * ulp x = 2 powi 53 * 2 powi (max (expo x) (- 1022) - 52)"
    by (simp add: ulp_def)
  also have "\<dots> = 2 powi (53 + (max (expo x) (- 1022) - 52))"
    by (rule two_powi_add)
  also have "53 + (max (expo x) (- 1022) - 52) = max (expo x) (- 1022) + 1"
    by simp
  finally show ?thesis
    by (simp only: double_eq [OF assms])
qed

lemma powi_le_double:
  assumes "0 < x" and "- 1022 \<le> expo x"
  shows "2 powi expo x \<le> double x"
proof -
  have u: "ulp x = 2 powi (expo x - 52)"
    using assms(2) by (simp add: ulp_def max_def)
  have "rne (of_int (2 ^ 52)) \<le> rne (x / ulp x)"
    using quotient_ulp_ge [OF assms] by (intro rne_mono) simp
  then have "2 ^ 52 \<le> rne (x / ulp x)"
    by (simp only: rne_of_int)
  then have "(of_int (2 ^ 52) :: rat) \<le> of_int (rne (x / ulp x))"
    by (simp only: of_int_le_iff)
  then have "of_int (2 ^ 52) * ulp x \<le> of_int (rne (x / ulp x)) * ulp x"
    using ulp_pos [of x] by (intro mult_right_mono) simp_all
  moreover have "of_int (2 ^ 52) * ulp x = 2 powi 52 * 2 powi (expo x - 52)"
    by (simp add: u)
  moreover have "2 powi 52 * 2 powi (expo x - 52) = (2 :: rat) powi expo x"
    unfolding two_powi_add by simp
  ultimately show ?thesis
    by (simp add: double_eq [OF assms(1)])
qed

lemma double_mono:
  assumes "x \<le> y"
  shows "double x \<le> double y"
proof (cases "0 < x")
  case False
  then have "double x = 0"
    by (simp add: double_def)
  then show ?thesis
    by simp
next
  case True
  then have y: "0 < y"
    using assms by simp
  have e: "expo x \<le> expo y"
    by (rule expo_mono [OF True assms])
  show ?thesis
  proof (cases "max (expo x) (- 1022) = max (expo y) (- 1022)")
    case same: True
    then have u: "ulp x = ulp y"
      by (simp add: ulp_def)
    have "x / ulp y \<le> y / ulp y"
      using assms ulp_pos [of y] by (simp add: divide_right_mono)
    then have "rne (x / ulp y) \<le> rne (y / ulp y)"
      by (rule rne_mono)
    then have "(of_int (rne (x / ulp y)) :: rat) \<le> of_int (rne (y / ulp y))"
      by (simp only: of_int_le_iff)
    then have "of_int (rne (x / ulp y)) * ulp y \<le> of_int (rne (y / ulp y)) * ulp y"
      using ulp_pos [of y] by (intro mult_right_mono) simp_all
    then show ?thesis
      by (simp add: double_eq [OF True] double_eq [OF y] u)
  next
    case False
    with e have lt: "max (expo x) (- 1022) < expo y" and ny: "- 1022 \<le> expo y"
      by (auto simp: max_def split: if_splits)
    have "double x \<le> 2 powi (max (expo x) (- 1022) + 1)"
      by (rule double_le_powi [OF True])
    also have "\<dots> \<le> 2 powi expo y"
      using lt by (intro two_powi_mono) linarith
    also have "\<dots> \<le> double y"
      by (rule powi_le_double [OF y ny])
    finally show ?thesis .
  qed
qed

lemma double_grid:
  assumes "0 \<le> m" and "m \<le> 2 ^ 53" and "- 1074 \<le> k"
  shows "double (of_int m * 2 powi k) = of_int m * 2 powi k"
proof (cases "m = 0")
  case True
  then show ?thesis by simp
next
  case False
  define x :: rat where "x = of_int m * 2 powi k"
  have mpos: "0 < m"
    using assms(1) False by simp
  then have x: "0 < x"
    by (simp add: x_def)
  define j where "j = max (expo x) (- 1022) - 52"
  have u: "ulp x = 2 powi j"
    by (simp add: ulp_def j_def)
  have "x / ulp x = of_int m * (2 powi k / 2 powi j)"
    by (subst u) (simp add: x_def)
  then have q: "x / ulp x = of_int m * 2 powi (k - j)"
    by (simp only: two_powi_diff)
  have "\<exists>z. x / ulp x = of_int z"
  proof (cases "j \<le> k")
    case True
    then have "(2 :: rat) powi (k - j) = of_int (2 ^ nat (k - j))"
      by (intro two_powi_nat) simp
    then have "x / ulp x = of_int (m * 2 ^ nat (k - j))"
      by (simp add: q)
    then show ?thesis ..
  next
    case False
    then have big: "- 1022 \<le> expo x" and j': "j = expo x - 52"
      using assms(3) by (auto simp: j_def max_def split: if_splits)
    have "(of_int m :: rat) \<le> of_int (2 ^ 53)"
      using assms(2) by (simp only: of_int_le_iff)
    then have "x \<le> of_int (2 ^ 53) * 2 powi k"
      unfolding x_def by (intro mult_right_mono) simp_all
    also have "of_int (2 ^ 53) * 2 powi k = (2 :: rat) powi 53 * 2 powi k"
      by simp
    also have "\<dots> = 2 powi (53 + k)"
      by (rule two_powi_add)
    finally have "2 powi expo x \<le> (2 :: rat) powi (53 + k)"
      using expo_bounds(1) [OF x] by simp
    then have "expo x \<le> 53 + k"
      by (rule two_powi_le_cancel)
    with False j' have kj: "k - j = - 1" and ex: "expo x = 53 + k"
      by simp_all
    have "(2 :: rat) powi (53 + k) = 2 powi 53 * 2 powi k"
      by (rule two_powi_add [symmetric])
    with expo_bounds(1) [OF x] ex have "2 powi 53 * 2 powi k \<le> of_int m * (2 :: rat) powi k"
      by (simp add: x_def)
    then have "(2 :: rat) powi 53 \<le> of_int m"
      by (simp add: mult_le_cancel_right)
    then have "(of_int (2 ^ 53) :: rat) \<le> of_int m"
      by simp
    then have "2 ^ 53 \<le> m"
      by (simp only: of_int_le_iff)
    with assms(2) have "m = 2 ^ 53"
      by simp
    then have "x / ulp x = of_int (2 ^ 52)"
      by (simp add: q kj power_int_minus_divide)
    then show ?thesis ..
  qed
  then obtain z where z: "x / ulp x = of_int z" ..
  have "ulp x \<noteq> 0"
    using ulp_pos [of x] by linarith
  then have "of_int z * ulp x = x"
    using z by (simp add: field_simps)
  then have "double x = x"
    by (simp add: double_eq [OF x] z)
  then show ?thesis
    by (simp add: x_def)
qed

lemma double_of_nat: "n \<le> 2 ^ 53 \<Longrightarrow> double (of_nat n) = of_nat n"
  using double_grid [of "int n" 0] by simp

lemma double_idem: "double (double x) = double x"
proof (cases "0 < x")
  case False
  then show ?thesis
    by (simp add: double_def)
next
  case True
  have "0 \<le> x / ulp x"
    using True ulp_pos [of x] by (simp add: divide_nonneg_pos less_imp_le)
  then have "rne 0 \<le> rne (x / ulp x)"
    by (rule rne_mono)
  then have lo: "0 \<le> rne (x / ulp x)"
    using rne_of_int [of 0] by simp
  have "rne (x / ulp x) \<le> rne (of_int (2 ^ 53))"
    using quotient_ulp_less [OF True] by (intro rne_mono) simp
  then have hi: "rne (x / ulp x) \<le> 2 ^ 53"
    by (simp only: rne_of_int)
  have "double (of_int (rne (x / ulp x)) * 2 powi (max (expo x) (- 1022) - 52)) =
      of_int (rne (x / ulp x)) * 2 powi (max (expo x) (- 1022) - 52)"
    by (rule double_grid [OF lo hi]) simp
  then show ?thesis
    by (simp add: double_eq [OF True] ulp_def)
qed

lemma double_rel:
  assumes "2 powi (- 1022) \<le> x"
  shows "double x \<le> x * (1 + 1 / 2 ^ 53)" and "x * (1 - 1 / 2 ^ 53) \<le> double x"
proof -
  have x: "0 < x"
    using assms zero_less_power_int [of "2 :: rat" "- 1022"] by linarith
  have "(2 :: rat) powi (- 1022) < 2 powi (expo x + 1)"
    using assms expo_bounds(2) [OF x] by simp
  then have "- 1022 < expo x + 1"
    by (rule two_powi_less_cancel)
  then have u: "ulp x = 2 powi (expo x - 52)"
    by (simp add: ulp_def max_def)
  have "ulp x = 2 powi expo x / 2 powi 52"
    unfolding u by (simp add: power_int_diff)
  also have "\<dots> \<le> x / 2 powi 52"
    using expo_bounds(1) [OF x] by (simp add: divide_right_mono)
  finally have "ulp x / 2 \<le> x / 2 ^ 53"
    by simp
  with double_error [OF x]
  show "double x \<le> x * (1 + 1 / 2 ^ 53)" and "x * (1 - 1 / 2 ^ 53) \<le> double x"
    by (simp_all add: algebra_simps)
qed

lemma double_small:
  assumes "x < 2 powi (- 1022)"
  shows "double x \<le> 2 powi (- 1022)"
proof (cases "0 < x")
  case False
  then show ?thesis
    by (simp add: double_def)
next
  case True
  have "(2 :: rat) powi expo x < 2 powi (- 1022)"
    using assms expo_bounds(1) [OF True] by simp
  then have "expo x < - 1022"
    by (rule two_powi_less_cancel)
  then have "max (expo x) (- 1022) + 1 = - 1021"
    by simp
  with double_le_powi [OF True] have "double x \<le> 2 powi (- 1021)"
    by simp
  moreover have "double x \<le> double (2 powi (- 1022))"
    using assms by (intro double_mono) simp
  moreover have "double (2 powi (- 1022)) = (2 :: rat) powi (- 1022)"
    using double_grid [of 1 "- 1022"] by simp
  ultimately show ?thesis
    by simp
qed

lemma rne_down: "of_int f \<le> q \<Longrightarrow> q < of_int f + 1 / 2 \<Longrightarrow> rne q = f"
proof -
  assume a: "of_int f \<le> q" "q < of_int f + 1 / 2"
  then have "\<lfloor>q\<rfloor> = f"
    by (intro floor_unique) simp_all
  with a show ?thesis
    by (simp add: rne_def)
qed

lemma rne_up: "of_int f + 1 / 2 < q \<Longrightarrow> q < of_int f + 1 \<Longrightarrow> rne q = f + 1"
proof -
  assume a: "of_int f + 1 / 2 < q" "q < of_int f + 1"
  then have "\<lfloor>q\<rfloor> = f"
    by (intro floor_unique) simp_all
  with a show ?thesis
    by (simp add: rne_def)
qed

lemma rne_tie_even: "q = of_int f + 1 / 2 \<Longrightarrow> even f \<Longrightarrow> rne q = f"
proof -
  assume a: "q = of_int f + 1 / 2" "even f"
  then have "\<lfloor>q\<rfloor> = f"
    by (intro floor_unique) simp_all
  with a show ?thesis
    by (simp add: rne_def)
qed

lemma double_eval:
  assumes "0 < x" and "2 powi e \<le> x" and "x < 2 powi (e + 1)" and "- 1022 \<le> e"
    and "rne (x / 2 powi (e - 52)) = m"
  shows "double x = of_int m * 2 powi (e - 52)"
proof -
  have "expo x = e"
    by (rule expo_unique [OF assms(1-3)])
  then have "ulp x = 2 powi (e - 52)"
    using assms(4) by (simp add: ulp_def max_def)
  with assms(5) show ?thesis
    by (simp add: double_eq [OF assms(1)])
qed

lemma rne_tie_odd: "q = of_int f + 1 / 2 \<Longrightarrow> odd f \<Longrightarrow> rne q = f + 1"
proof -
  assume a: "q = of_int f + 1 / 2" "odd f"
  then have "\<lfloor>q\<rfloor> = f"
    by (intro floor_unique) simp_all
  with a show ?thesis
    by (simp add: rne_def)
qed

section \<open>The random index\<close>

lemma Rep_draw_bounds:
  "0 \<le> Rep_draw r" "Rep_draw r < 1" "double (Rep_draw r) = Rep_draw r"
  using Rep_draw [of r] by simp_all

lemma two_powi_small: "(2 :: rat) powi (- 1022) < 1"
proof -
  have "(2 :: rat) powi (- 1022) < 2 powi 0"
    by (rule power_int_strict_increasing) simp_all
  then show ?thesis
    by simp
qed

text \<open>The largest double below 1 is \<open>1 - 1 / 2 ^ 53\<close>.\<close>

lemma Rep_draw_le: "Rep_draw r \<le> 1 - 1 / 2 ^ 53"
proof (cases "Rep_draw r \<le> 1 / 2")
  case True
  then show ?thesis
    by simp
next
  case False
  define x where "x = Rep_draw r"
  have x: "1 / 2 < x" "x < 1" "double x = x"
    using False Rep_draw_bounds [of r] by (simp_all add: x_def)
  then have pos: "0 < x"
    by simp
  have "expo x = - 1"
    using x by (intro expo_unique [OF pos]) (simp_all add: power_int_minus_divide)
  then have u: "ulp x = 1 / 2 ^ 53"
    by (simp add: ulp_def power_int_minus_divide)
  define m where "m = rne (x / ulp x)"
  have "double x = of_int m * ulp x"
    unfolding m_def by (rule double_eq [OF pos])
  then have xm: "x = of_int m / 2 ^ 53"
    unfolding x(3) u by simp
  with x(2) have "(of_int m :: rat) < of_int (2 ^ 53)"
    by (simp add: field_simps)
  then have "m < 2 ^ 53"
    by (simp only: of_int_less_iff)
  then have "m \<le> 2 ^ 53 - 1"
    by simp
  then have "(of_int m :: rat) \<le> of_int (2 ^ 53 - 1)"
    by (simp only: of_int_le_iff)
  then have "x \<le> 1 - 1 / 2 ^ 53"
    by (simp add: xm field_simps)
  then show ?thesis
    by (simp add: x_def)
qed

lemma double_product_less:
  assumes "0 < n"
  shows "double (Rep_draw r * of_nat n) < of_nat n"
proof (cases "Rep_draw r * of_nat n < 2 powi (- 1022)")
  case True
  from double_small [OF this] two_powi_small have "double (Rep_draw r * of_nat n) < 1"
    by simp
  also have "(1 :: rat) \<le> of_nat n"
    using assms by simp
  finally show ?thesis .
next
  case False
  then have "double (Rep_draw r * of_nat n) \<le> Rep_draw r * of_nat n * (1 + 1 / 2 ^ 53)"
    by (intro double_rel(1)) simp
  also have "\<dots> \<le> (1 - 1 / 2 ^ 53) * of_nat n * (1 + 1 / 2 ^ 53)"
    using Rep_draw_le [of r] by (intro mult_right_mono) simp_all
  also have "\<dots> < of_nat n"
    using assms by simp
  finally show ?thesis .
qed

lemma randomHouseNumber_less: "0 < n \<Longrightarrow> randomHouseNumber r n < n"
proof -
  assume n: "0 < n"
  have "\<lfloor>double (Rep_draw r * of_nat n)\<rfloor> < int n"
    using double_product_less [OF n, of r] by (simp add: floor_less_iff)
  moreover have "0 \<le> \<lfloor>double (Rep_draw r * of_nat n)\<rfloor>"
    by simp
  ultimately show ?thesis
    unfolding randomHouseNumber_def by (simp add: nat_less_iff)
qed

lemma randomHouseNumber_zero: "randomHouseNumber r 0 = 0"
  by (simp add: randomHouseNumber_def)

lemma randomHouseNumber_le: "randomHouseNumber r n \<le> n"
  using randomHouseNumber_less [of n r] by (cases n) (simp_all add: randomHouseNumber_zero)

text \<open>
  The index for the draw \<open>r\<close> and the length \<open>n\<close> is the integer part of \<open>r * n\<close>, up to the
  rounding of the product.
\<close>

lemma randomHouseNumber_interval:
  assumes "0 < n" and "n \<le> 2 ^ 53"
  shows "of_nat (randomHouseNumber r n) \<le> Rep_draw r * of_nat n * (1 + 1 / 2 ^ 53)"
    and "Rep_draw r * of_nat n < of_nat (randomHouseNumber r n) + 1"
proof -
  define x where "x = Rep_draw r * of_nat n"
  define i where "i = randomHouseNumber r n"
  have x0: "0 \<le> x"
    using Rep_draw_bounds(1) [of r] by (simp add: x_def)
  have i: "int i = \<lfloor>double x\<rfloor>"
    by (simp add: i_def randomHouseNumber_def x_def)
  then have "(of_nat i :: rat) = of_int \<lfloor>double x\<rfloor>"
    by (metis of_int_of_nat_eq)
  then have le: "of_nat i \<le> double x" and gt: "double x < of_nat i + 1"
    by linarith+
  show "of_nat i \<le> x * (1 + 1 / 2 ^ 53)"
  proof (cases "x < 2 powi (- 1022)")
    case True
    from double_small [OF this] two_powi_small have "double x < 1"
      by simp
    with le have "(of_nat i :: rat) < 1"
      by simp
    then have "i = 0"
      by simp
    with x0 show ?thesis
      by simp
  next
    case False
    then have "double x \<le> x * (1 + 1 / 2 ^ 53)"
      by (intro double_rel(1)) simp
    with le show ?thesis
      by simp
  qed
  show "x < of_nat i + 1"
  proof (rule ccontr)
    assume "\<not> x < of_nat i + 1"
    then have "of_nat (Suc i) \<le> x"
      by simp
    then have "double (of_nat (Suc i)) \<le> double x"
      by (rule double_mono)
    moreover have "Suc i \<le> 2 ^ 53"
      using randomHouseNumber_less [OF assms(1), of r] assms(2) by (simp add: i_def)
    ultimately have "of_nat (Suc i) \<le> double x"
      by (simp only: double_of_nat)
    with gt show False
      by simp
  qed
qed

lemma randomHouseNumber_eqI:
  assumes "n \<le> 2 ^ 53"
    and "of_nat i \<le> Rep_draw r * of_nat n"
    and "Rep_draw r * of_nat n * (1 + 1 / 2 ^ 53) < of_nat i + 1"
  shows "randomHouseNumber r n = i"
proof -
  define x where "x = Rep_draw r * of_nat n"
  have "x \<le> 1 * of_nat n"
    unfolding x_def using Rep_draw_bounds(2) [of r] by (intro mult_right_mono) simp_all
  with assms(2) have "(of_nat i :: rat) \<le> of_nat n"
    by (simp add: x_def)
  then have "i \<le> 2 ^ 53"
    using assms(1) by simp
  then have "double (of_nat i) = (of_nat i :: rat)"
    by (rule double_of_nat)
  moreover have "double (of_nat i) \<le> double x"
    using assms(2) unfolding x_def by (rule double_mono)
  ultimately have le: "of_nat i \<le> double x"
    by simp
  have gt: "double x < of_nat i + 1"
  proof (cases "x < 2 powi (- 1022)")
    case True
    from double_small [OF this] two_powi_small have "double x < 1"
      by simp
    then show ?thesis
      by (simp add: add_strict_increasing2)
  next
    case False
    then have "double x \<le> x * (1 + 1 / 2 ^ 53)"
      by (intro double_rel(1)) simp
    with assms(3) show ?thesis
      by (simp add: x_def)
  qed
  have "\<lfloor>double x\<rfloor> = int i"
    using le gt by (intro floor_unique) simp_all
  then show ?thesis
    by (simp add: randomHouseNumber_def x_def)
qed

text \<open>Every index below the length is the index for some draw.\<close>

lemma randomHouseNumber_onto:
  assumes "i < n" and "n < 2 ^ 32"
  shows "\<exists>r. randomHouseNumber r n = i"
proof -
  define y :: rat where "y = (of_nat i + 1 / 2) / of_nat n"
  define r where "r = double y"
  have n: "(0 :: rat) < of_nat n"
    using assms(1) by simp
  have "Suc i \<le> n"
    using assms(1) by simp
  then have "(of_nat (Suc i) :: rat) \<le> of_nat n"
    by (simp only: of_nat_le_iff)
  then have i: "(of_nat i :: rat) + 1 \<le> of_nat n"
    by simp
  have "(of_nat n :: rat) < of_nat (2 ^ 32)"
    using assms(2) by (simp only: of_nat_less_iff)
  then have b: "(of_nat n :: rat) < 4294967296"
    by simp
  have yn: "y * of_nat n = of_nat i + 1 / 2"
    using n by (simp add: y_def)
  have i0: "(0 :: rat) \<le> of_nat i"
    by simp
  have "1 / 2 ^ 33 \<le> y"
    using n b i0 by (simp add: y_def field_simps)
  moreover have "(2 :: rat) powi (- 1022) \<le> 2 powi (- 33)"
    by (rule two_powi_mono) simp
  ultimately have "2 powi (- 1022) \<le> y"
    by (simp add: power_int_minus_divide)
  note rel = double_rel [OF this]
  have up: "r * of_nat n \<le> (of_nat i + 1 / 2) * (1 + 1 / 2 ^ 53)"
  proof -
    have "r * of_nat n \<le> y * (1 + 1 / 2 ^ 53) * of_nat n"
      unfolding r_def using rel(1) n by (intro mult_right_mono) simp_all
    also have "\<dots> = y * of_nat n * (1 + 1 / 2 ^ 53)"
      by (simp add: mult_ac)
    finally show ?thesis
      by (simp only: yn)
  qed
  have lo: "(of_nat i + 1 / 2) * (1 - 1 / 2 ^ 53) \<le> r * of_nat n"
  proof -
    have "y * (1 - 1 / 2 ^ 53) * of_nat n \<le> r * of_nat n"
      unfolding r_def using rel(2) n by (intro mult_right_mono) simp_all
    moreover have "y * (1 - 1 / 2 ^ 53) * of_nat n = y * of_nat n * (1 - 1 / 2 ^ 53)"
      by (simp add: mult_ac)
    ultimately show ?thesis
      by (simp only: yn)
  qed
  have ib: "(of_nat i :: rat) < 4294967296"
    using i b by linarith
  have e1: "(of_nat i + 1 / 2) * (1 + 1 / 2 ^ 53) =
      (of_nat i :: rat) * (9007199254740993 / 9007199254740992) + 9007199254740993 / 18014398509481984"
    by (simp add: field_simps)
  have e2: "(of_nat i + 1 / 2) * (1 - 1 / 2 ^ 53) =
      (of_nat i :: rat) * (9007199254740991 / 9007199254740992) + 9007199254740991 / 18014398509481984"
    by (simp add: field_simps)
  have e3: "(of_nat i + 1 / 2) * (1 + 1 / 2 ^ 53) * (1 + 1 / 2 ^ 53) =
      (of_nat i :: rat) * (81129638414606699710187514626049 / 81129638414606681695789005144064) + 81129638414606699710187514626049 / 162259276829213363391578010288128"
    by (simp add: field_simps)
  have "r * of_nat n < of_nat n"
    using up i ib i0 unfolding e1 by linarith
  then have "r * of_nat n < 1 * of_nat n"
    by simp
  then have r1: "r < 1"
    using n by (simp only: mult_less_cancel_right_pos)
  have "0 \<le> r" "double r = r"
    by (simp_all add: r_def double_idem)
  with r1 have rep: "Rep_draw (Abs_draw r) = r"
    by (simp add: Abs_draw_inverse)
  have "randomHouseNumber (Abs_draw r) n = i"
  proof (rule randomHouseNumber_eqI)
    show "n \<le> 2 ^ 53"
      using assms(2) by simp
    show "of_nat i \<le> Rep_draw (Abs_draw r) * of_nat n"
      unfolding rep using lo ib i0 unfolding e2 by linarith
    have "r * of_nat n * (1 + 1 / 2 ^ 53)
        \<le> (of_nat i + 1 / 2) * (1 + 1 / 2 ^ 53) * (1 + 1 / 2 ^ 53)"
      using up by (intro mult_right_mono) simp_all
    also have "\<dots> < of_nat i + 1"
      using ib i0 unfolding e3 by linarith
    finally show "Rep_draw (Abs_draw r) * of_nat n * (1 + 1 / 2 ^ 53) < of_nat i + 1"
      by (simp only: rep)
  qed
  then show ?thesis ..
qed

text \<open>
  The rounding shows: \<^verbatim>\<open>0.3333333333333333\<close>, the double nearest to 1/3, lies below 1/3, yet
  its product with 3 rounds to 1, and its index among 3 houses is 1.
\<close>

lemma randomHouseNumber_rounds_up:
  "(6004799503160661 / 18014398509481984 :: rat) < 1 / 3"
  "Rep_draw (the_draw (6004799503160661 / 18014398509481984)) =
     6004799503160661 / 18014398509481984"
  "randomHouseNumber (the_draw (6004799503160661 / 18014398509481984)) 3 = 1"
proof -
  show "(6004799503160661 / 18014398509481984 :: rat) < 1 / 3"
    by simp
  have "double (of_int 6004799503160661 * 2 powi (- 54)) =
      of_int 6004799503160661 * 2 powi (- 54)"
    by (rule double_grid) simp_all
  then have d: "double (6004799503160661 / 18014398509481984) =
      6004799503160661 / 18014398509481984"
    by (simp add: power_int_minus_divide)
  then show r: "Rep_draw (the_draw (6004799503160661 / 18014398509481984)) =
      6004799503160661 / 18014398509481984"
    by (simp add: the_draw.rep_eq)
  have "rne ((18014398509481983 / 18014398509481984) / 2 powi (- 1 - 52)) =
      9007199254740991 + 1"
    by (rule rne_tie_odd) (simp_all add: power_int_minus_divide)
  from double_eval [OF _ _ _ _ this]
  have "double (18014398509481983 / 18014398509481984) = 1"
    by (simp add: power_int_minus_divide)
  then show "randomHouseNumber (the_draw (6004799503160661 / 18014398509481984)) 3 = 1"
    by (simp add: randomHouseNumber_def r)
qed

section \<open>One house entered\<close>

lemma infected_update:
  "i < length hs \<Longrightarrow> \<not> hs ! i \<Longrightarrow> infected (hs[i := True]) = Suc (infected hs)"
proof (induction hs arbitrary: i)
  case Nil
  then show ?case by simp
next
  case (Cons h hs)
  then show ?case
    by (cases i) (simp_all add: infected_def)
qed

lemma infected_append: "infected (hs @ [True]) = Suc (infected hs)"
  by (simp add: infected_def)

lemma infected_le_length: "infected hs \<le> length hs"
  by (simp add: infected_def)

lemma infected_eq_length: "infected hs = length hs \<longleftrightarrow> all_infected hs"
proof (induction hs)
  case Nil
  then show ?case by (simp add: infected_def all_infected_def)
next
  case (Cons h hs)
  show ?case
  proof (cases h)
    case True
    with Cons show ?thesis
      by (simp add: infected_def all_infected_def)
  next
    case False
    have "infected hs < Suc (length hs)"
      using infected_le_length [of hs] by simp
    with False show ?thesis
      by (simp add: infected_def all_infected_def)
  qed
qed

lemma enter_visit:
  "hs \<noteq> [] \<Longrightarrow> enter r (hs, n) = visit (randomHouseNumber r (length hs)) (hs, n)"
  using randomHouseNumber_less [of "length hs" r]
  by (simp add: enter_def visit_def Let_def)

lemma visit_length: "length (fst (visit i (hs, n))) = length hs"
  by (simp add: visit_def)

lemma enter_length: "hs \<noteq> [] \<Longrightarrow> length (fst (enter r (hs, n))) = length hs"
  by (simp add: enter_visit visit_length)

lemma enter_infected:
  "infected (fst (enter r (hs, n))) + n = infected hs + snd (enter r (hs, n))"
  by (simp add: enter_def Let_def infected_update infected_append)

lemma enter_tally: "n \<le> snd (enter r (hs, n)) \<and> snd (enter r (hs, n)) \<le> n + 1"
  by (simp add: enter_def Let_def)

lemma enter_keeps: "i < length hs \<Longrightarrow> hs ! i \<Longrightarrow> fst (enter r (hs, n)) ! i"
  by (simp add: enter_def Let_def nth_list_update nth_append)

lemma enter_all_infected:
  "hs \<noteq> [] \<Longrightarrow> all_infected hs \<Longrightarrow> enter r (hs, n) = (hs, n)"
  using randomHouseNumber_less [of "length hs" r]
  by (auto simp: enter_def Let_def all_infected_def in_set_conv_nth)

section \<open>The loop of a tick\<close>

lemma tick_loop_fold: "tick_loop rnd zs zombie st = fold enter (map rnd [zombie..<zs]) st"
proof (induction rnd zs zombie st rule: tick_loop.induct)
  case (1 rnd zs zombie st)
  show ?case
  proof (cases "zombie < zs")
    case True
    then have "[zombie..<zs] = zombie # [zombie + 1..<zs]"
      by (simp add: upt_conv_Cons)
    with True 1 show ?thesis
      by (subst tick_loop.simps) simp
  next
    case False
    then show ?thesis
      by (subst tick_loop.simps) simp
  qed
qed

lemma fold_enter_visit:
  "hs \<noteq> [] \<Longrightarrow>
   fold enter ds (hs, n) = fold visit (map (\<lambda>r. randomHouseNumber r (length hs)) ds) (hs, n)"
proof (induction ds arbitrary: hs n)
  case Nil
  then show ?case by simp
next
  case (Cons d ds)
  obtain hs' n' where v: "visit (randomHouseNumber d (length hs)) (hs, n) = (hs', n')"
    by (cases "visit (randomHouseNumber d (length hs)) (hs, n)")
  have len: "length hs' = length hs"
    using visit_length [of "randomHouseNumber d (length hs)" hs n] v by simp
  with Cons.prems have "hs' \<noteq> []"
    by auto
  from Cons.IH [OF this, of n'] Cons.prems v len show ?case
    by (simp add: enter_visit)
qed

lemma fold_enter_length:
  "hs \<noteq> [] \<Longrightarrow> length (fst (fold enter ds (hs, n))) = length hs"
proof (induction ds arbitrary: hs n)
  case Nil
  then show ?case by simp
next
  case (Cons d ds)
  obtain hs' n' where e: "enter d (hs, n) = (hs', n')"
    by (cases "enter d (hs, n)")
  have len: "length hs' = length hs"
    using enter_length [OF Cons.prems, of d n] e by simp
  with Cons.prems have "hs' \<noteq> []"
    by auto
  from Cons.IH [OF this, of n'] e len show ?case
    by simp
qed

lemma fold_enter_infected:
  "infected (fst (fold enter ds (hs, n))) + n = infected hs + snd (fold enter ds (hs, n))"
proof (induction ds arbitrary: hs n)
  case Nil
  then show ?case by simp
next
  case (Cons d ds)
  obtain hs' n' where e: "enter d (hs, n) = (hs', n')"
    by (cases "enter d (hs, n)")
  have "infected hs' + n = infected hs + n'" "n \<le> n'"
    using enter_infected [of d hs n] enter_tally [of n d hs] e by simp_all
  with Cons.IH [of hs' n'] e show ?case
    by simp
qed

lemma fold_enter_tally:
  "n \<le> snd (fold enter ds (hs, n)) \<and> snd (fold enter ds (hs, n)) \<le> n + length ds"
proof (induction ds arbitrary: hs n)
  case Nil
  then show ?case by simp
next
  case (Cons d ds)
  obtain hs' n' where e: "enter d (hs, n) = (hs', n')"
    by (cases "enter d (hs, n)")
  have "n \<le> n'" "n' \<le> n + 1"
    using enter_tally [of n d hs] e by simp_all
  with Cons.IH [of n' hs'] e show ?case
    by simp
qed

lemma fold_enter_all_infected:
  "hs \<noteq> [] \<Longrightarrow> all_infected hs \<Longrightarrow> fold enter ds (hs, n) = (hs, n)"
  by (induction ds) (simp_all add: enter_all_infected)

section \<open>One tick\<close>

lemma tick_day: "day (fst (tick rnd s)) = day s + 1"
  by (simp add: tick_def split: prod.splits)

lemma tick_houses:
  "houses (fst (tick rnd s)) = fst (fold enter (map rnd [0..<zombies s]) (houses s, 0))"
  by (simp add: tick_def tick_loop_fold split: prod.splits)

lemma tick_zombies:
  "zombies (fst (tick rnd s)) =
     zombies s + snd (fold enter (map rnd [0..<zombies s]) (houses s, 0))"
  by (simp add: tick_def tick_loop_fold split: prod.splits)

lemma tick_timer: "timer (fst (tick rnd s)) = timer s"
  by (simp add: tick_def split: prod.splits)

lemma tick_onDone: "onDone (fst (tick rnd s)) = onDone s"
  by (simp add: tick_def split: prod.splits)

lemma tick_done: "snd (tick rnd s) = all_infected (houses (fst (tick rnd s)))"
  by (simp add: tick_def split: prod.splits)

lemma tick_length:
  "houses s \<noteq> [] \<Longrightarrow> length (houses (fst (tick rnd s))) = length (houses s)"
  by (simp add: tick_houses fold_enter_length)

lemma tick_infected:
  "infected (houses (fst (tick rnd s))) + zombies s =
     infected (houses s) + zombies (fst (tick rnd s))"
  using fold_enter_infected [of "map rnd [0..<zombies s]" "houses s" 0]
  by (simp add: tick_houses tick_zombies)

lemma tick_zombies_bounds:
  "zombies s \<le> zombies (fst (tick rnd s)) \<and> zombies (fst (tick rnd s)) \<le> 2 * zombies s"
  using fold_enter_tally [of 0 "map rnd [0..<zombies s]" "houses s"]
  by (simp add: tick_zombies)

lemma tick_all_infected:
  assumes "houses s \<noteq> []" and "all_infected (houses s)"
  shows "tick rnd s = (s\<lparr>day := day s + 1\<rparr>, True)"
  using assms
  by (simp add: tick_def tick_loop_fold fold_enter_all_infected)

text \<open>
  C1: with at least one house, a call of \<open>tick\<close> does what the specification says of
  \<open>advanceOneDay\<close>: there is one index drawn for each of the zombies counted when the
  call starts, each index is below the number \<open>N\<close> of houses, and the new state and the
  completion of the run are those of \<open>advanceOneDay_spec\<close> for these indices. The index
  for a value \<open>r\<close> of \<^verbatim>\<open>Math.random()\<close> is the integer part of \<open>r * N\<close> up to the rounding
  of the product: the values that give the index \<open>i\<close> lie from \<open>i / N\<close> to \<open>(i + 1) / N\<close>,
  where each end may be lower by one part in \<open>2 ^ 53\<close>, and every index below \<open>N\<close> is
  given by some value. So the indices are as evenly spread as the values of
  \<^verbatim>\<open>Math.random()\<close> are, up to that rounding; how these values are spread is left to the
  engine.
\<close>

theorem tick_is_advanceOneDay:
  assumes "houses s \<noteq> []"
  shows "length (map (\<lambda>zombie. randomHouseNumber (rnd zombie) (length (houses s)))
           [0..<zombies s]) = zombies s
       \<and> (\<forall>i \<in> set (map (\<lambda>zombie. randomHouseNumber (rnd zombie) (length (houses s)))
           [0..<zombies s]). i < length (houses s))
       \<and> tick rnd s =
           advanceOneDay_spec
             (map (\<lambda>zombie. randomHouseNumber (rnd zombie) (length (houses s)))
               [0..<zombies s]) s
       \<and> (length (houses s) < 2 ^ 32 \<longrightarrow>
            (\<forall>r. of_nat (randomHouseNumber r (length (houses s)))
                    \<le> Rep_draw r * of_nat (length (houses s)) * (1 + 1 / 2 ^ 53)
                \<and> Rep_draw r * of_nat (length (houses s))
                    < of_nat (randomHouseNumber r (length (houses s))) + 1)
          \<and> (\<forall>r i. of_nat i \<le> Rep_draw r * of_nat (length (houses s))
                  \<and> Rep_draw r * of_nat (length (houses s)) * (1 + 1 / 2 ^ 53) < of_nat i + 1
                \<longrightarrow> randomHouseNumber r (length (houses s)) = i)
          \<and> (\<forall>i<length (houses s). \<exists>r. randomHouseNumber r (length (houses s)) = i))"
proof -
  have pos: "0 < length (houses s)"
    using assms by simp
  have spec: "tick rnd s =
          advanceOneDay_spec
            (map (\<lambda>zombie. randomHouseNumber (rnd zombie) (length (houses s)))
              [0..<zombies s]) s"
    using fold_enter_visit [OF assms, of "map rnd [0..<zombies s]" 0]
    by (simp add: tick_def advanceOneDay_spec_def tick_loop_fold all_infected_def comp_def
        split: prod.splits)
  have below: "randomHouseNumber r (length (houses s)) < length (houses s)" for r
    using assms by (simp add: randomHouseNumber_less)
  have index: "(\<forall>r. of_nat (randomHouseNumber r (length (houses s)))
                    \<le> Rep_draw r * of_nat (length (houses s)) * (1 + 1 / 2 ^ 53)
                \<and> Rep_draw r * of_nat (length (houses s))
                    < of_nat (randomHouseNumber r (length (houses s))) + 1)
          \<and> (\<forall>r i. of_nat i \<le> Rep_draw r * of_nat (length (houses s))
                  \<and> Rep_draw r * of_nat (length (houses s)) * (1 + 1 / 2 ^ 53) < of_nat i + 1
                \<longrightarrow> randomHouseNumber r (length (houses s)) = i)
          \<and> (\<forall>i<length (houses s). \<exists>r. randomHouseNumber r (length (houses s)) = i)"
    if small: "length (houses s) < 2 ^ 32"
  proof (intro conjI allI impI)
    have le: "length (houses s) \<le> 2 ^ 53"
      using small by simp
    fix r
    show "of_nat (randomHouseNumber r (length (houses s)))
        \<le> Rep_draw r * of_nat (length (houses s)) * (1 + 1 / 2 ^ 53)"
      by (rule randomHouseNumber_interval(1) [OF pos le])
    show "Rep_draw r * of_nat (length (houses s))
        < of_nat (randomHouseNumber r (length (houses s))) + 1"
      by (rule randomHouseNumber_interval(2) [OF pos le])
  next
    have le: "length (houses s) \<le> 2 ^ 53"
      using small by simp
    fix r i
    assume "of_nat i \<le> Rep_draw r * of_nat (length (houses s))
        \<and> Rep_draw r * of_nat (length (houses s)) * (1 + 1 / 2 ^ 53) < of_nat i + 1"
    then show "randomHouseNumber r (length (houses s)) = i"
      using randomHouseNumber_eqI [OF le, of i r] by blast
  next
    fix i
    assume "i < length (houses s)"
    then show "\<exists>r. randomHouseNumber r (length (houses s)) = i"
      using small by (rule randomHouseNumber_onto)
  qed
  from spec below index show ?thesis
    by simp
qed

lemma double_half: "double (1 / 2) = 1 / 2"
  using double_grid [of 1 "- 1"] by (simp add: power_int_minus_divide)

lemma double_three_halves: "double (3 / 2) = 3 / 2"
  using double_grid [of 3 "- 1"] by (simp add: power_int_minus_divide)

lemma double_one: "double 1 = 1"
  using double_of_nat [of 1] by simp

lemma zero_then_half_index:
  "randomHouseNumber (zero_then_half 0) n = 0"
  "randomHouseNumber (zero_then_half (Suc k)) 2 = 1"
  "randomHouseNumber (zero_then_half (Suc k)) 3 = 1"
proof -
  show "randomHouseNumber (zero_then_half 0) n = 0"
    by (simp add: randomHouseNumber_def zero_then_half_def the_draw.rep_eq)
  have h: "Rep_draw (zero_then_half (Suc k)) = 1 / 2"
    by (simp add: zero_then_half_def the_draw.rep_eq double_half)
  show "randomHouseNumber (zero_then_half (Suc k)) 2 = 1"
    by (simp add: randomHouseNumber_def h double_one)
  have "\<lfloor>3 / 2 :: rat\<rfloor> = 1"
    using floor_divide_of_int_eq [of 3 2, where ?'a = rat] by simp
  then show "randomHouseNumber (zero_then_half (Suc k)) 3 = 1"
    by (simp add: randomHouseNumber_def h double_three_halves)
qed

theorem tick_is_advanceOneDay_witness:
  "houses \<lparr>zombies = 2, day = 3, houses = [True, False, False], timer = None,
            onDone = NotDefined\<rparr> \<noteq> []
   \<and> randomHouseNumber (zero_then_half 0) 3 = 0
   \<and> randomHouseNumber (zero_then_half 1) 3 = 1
   \<and> tick zero_then_half
        \<lparr>zombies = 2, day = 3, houses = [True, False, False], timer = None,
         onDone = NotDefined\<rparr> =
       advanceOneDay_spec [0, 1]
        \<lparr>zombies = 2, day = 3, houses = [True, False, False], timer = None,
         onDone = NotDefined\<rparr>
   \<and> advanceOneDay_spec [0, 1]
        \<lparr>zombies = 2, day = 3, houses = [True, False, False], timer = None,
         onDone = NotDefined\<rparr> =
       (\<lparr>zombies = 3, day = 4, houses = [True, True, False], timer = None,
         onDone = NotDefined\<rparr>, False)
   \<and> (3 :: nat) < 2 ^ 32
   \<and> Rep_draw (zero_then_half 1) * 3 < 2"
proof -
  have two: "[0..<2] = [0, Suc 0]"
    by (simp add: upt_rec)
  have r: "map (\<lambda>zombie. randomHouseNumber (zero_then_half zombie) (Suc (Suc (Suc 0))))
             [0..<2] = [0, 1]"
    using zero_then_half_index(1) [of 3] zero_then_half_index(3) [of 0]
    by (simp add: two numeral_3_eq_3)
  have i: "randomHouseNumber (zero_then_half 0) 3 = 0"
    "randomHouseNumber (zero_then_half 1) 3 = 1"
    using zero_then_half_index(1) [of 3] zero_then_half_index(3) [of 0] by simp_all
  have h: "Rep_draw (zero_then_half 1) * 3 < 2"
    by (simp add: zero_then_half_def the_draw.rep_eq double_half)
  show ?thesis
    using tick_is_advanceOneDay
      [of "\<lparr>zombies = 2, day = 3, houses = [True, False, False], timer = None,
            onDone = NotDefined\<rparr>" zero_then_half] i h
    by (simp add: r advanceOneDay_spec_def visit_def)
qed

section \<open>Ticks in a row\<close>

lemma shift_shift: "shift a (shift b rnd) = shift (b + a) rnd"
  by (simp add: shift_def add.assoc)

lemma shift_always_zero: "shift n always_zero = always_zero"
  by (simp add: shift_def always_zero_def)

lemma ticks_Suc_end:
  "ticks (Suc n) rnd s = fst (tick (shift (draws n rnd s) rnd) (ticks n rnd s))"
proof (induction n arbitrary: rnd s)
  case 0
  then show ?case by (simp add: shift_def)
next
  case (Suc n)
  have "ticks (Suc (Suc n)) rnd s = ticks (Suc n) (shift (zombies s) rnd) (fst (tick rnd s))"
    by simp
  also have "\<dots> = fst (tick (shift (draws n (shift (zombies s) rnd) (fst (tick rnd s)))
                        (shift (zombies s) rnd))
                      (ticks n (shift (zombies s) rnd) (fst (tick rnd s))))"
    by (rule Suc.IH)
  finally show ?case
    by (simp add: shift_shift)
qed

lemma ticks_preserves:
  assumes "P s" and "\<And>rnd s. P s \<Longrightarrow> P (fst (tick rnd s))"
  shows "P (ticks n rnd s)"
  using assms(1)
proof (induction n arbitrary: rnd s)
  case 0
  then show ?case by simp
next
  case (Suc n)
  then show ?case
    by (simp add: assms(2))
qed

lemma ticks_day: "day (ticks n rnd s) = day s + n"
  by (induction n arbitrary: rnd s) (simp_all add: tick_day)

lemma ticks_length:
  "houses s \<noteq> [] \<Longrightarrow> length (houses (ticks n rnd s)) = length (houses s)"
proof (induction n arbitrary: rnd s)
  case 0
  then show ?case by simp
next
  case (Suc n)
  have "houses (fst (tick rnd s)) \<noteq> []"
    using tick_length [OF Suc.prems, of rnd] Suc.prems by auto
  from Suc.IH [OF this] show ?case
    by (simp add: tick_length [OF Suc.prems])
qed

lemma ticks_all_infected:
  "houses s \<noteq> [] \<Longrightarrow> all_infected (houses s) \<Longrightarrow> all_infected (houses (ticks n rnd s))"
  by (induction n arbitrary: rnd s) (simp_all add: tick_all_infected)

lemma ticks_add:
  "ticks (m + n) rnd s = ticks n (shift (draws m rnd s) rnd) (ticks m rnd s)"
proof (induction m arbitrary: rnd s)
  case 0
  then show ?case by (simp add: shift_def)
next
  case (Suc m)
  then show ?case
    by (simp add: shift_shift)
qed

lemma ticks_all_infected_later:
  assumes "houses s \<noteq> []" and "all_infected (houses (ticks m rnd s))" and "m \<le> n"
  shows "all_infected (houses (ticks n rnd s))"
proof -
  from assms(3) obtain k where n: "n = m + k"
    using le_Suc_ex by blast
  have "houses (ticks m rnd s) \<noteq> []"
    using ticks_length [OF assms(1), of m rnd] assms(1) by auto
  from ticks_all_infected [OF this assms(2)] show ?thesis
    by (simp add: n ticks_add)
qed

lemma Simulation_Inr:
  assumes "Simulation N = Inr s0"
  shows "0 \<le> N" and "zombies s0 = 1" and "day s0 = 0"
    and "houses s0 = replicate (nat N) False" and "timer s0 = None"
    and "onDone s0 = NotDefined"
  using assms by (auto simp: Simulation_def split: if_splits)

lemma infected_replicate_False: "infected (replicate n False) = 0"
  by (simp add: infected_def)

text \<open>
  C2: for a run with at least one house and any draws, a tick leaves the zombie count
  at least what it was, adds one to the day counter, leaves the number of infected
  houses at least what it was, and signals completion exactly when that number has
  become the number of houses. Along the ticks of a run constructed with \<open>N \<ge> 1\<close> houses,
  the number of infected houses after \<open>m\<close> ticks is \<open>N\<close> exactly when one of these
  \<open>m\<close> ticks signalled completion.
\<close>

theorem tick_step_invariants:
  assumes "houses s \<noteq> []" and "Simulation N = Inr s0" and "1 \<le> N"
  shows "zombies s \<le> zombies (fst (tick rnd s))
       \<and> day (fst (tick rnd s)) = day s + 1
       \<and> infected (houses s) \<le> infected (houses (fst (tick rnd s)))
       \<and> (snd (tick rnd s) \<longleftrightarrow>
            infected (houses (fst (tick rnd s))) = length (houses s))
       \<and> (infected (houses (ticks m rnd' s0)) = nat N \<longleftrightarrow>
            (\<exists>n<m. snd (tick (shift (draws n rnd' s0) rnd') (ticks n rnd' s0))))"
proof -
  have z: "zombies s \<le> zombies (fst (tick rnd s))"
    using tick_zombies_bounds [of s rnd] by simp
  have i: "infected (houses s) \<le> infected (houses (fst (tick rnd s)))"
    using tick_infected [of rnd s] z by linarith
  have d: "snd (tick rnd s) \<longleftrightarrow> infected (houses (fst (tick rnd s))) = length (houses s)"
    using infected_eq_length [of "houses (fst (tick rnd s))"]
    by (simp add: tick_done tick_length [OF assms(1)])
  have hs: "houses s0 = replicate (nat N) False" and ne: "houses s0 \<noteq> []"
    using Simulation_Inr(4) [OF assms(2)] assms(3) by auto
  have len: "length (houses (ticks k rnd' s0)) = nat N" for k
    using ticks_length [OF ne, of k rnd'] hs by simp
  have sig: "snd (tick (shift (draws n rnd' s0) rnd') (ticks n rnd' s0)) \<longleftrightarrow>
             all_infected (houses (ticks (Suc n) rnd' s0))" for n
    by (simp only: ticks_Suc_end tick_done)
  have run: "infected (houses (ticks m rnd' s0)) = nat N \<longleftrightarrow>
             (\<exists>n<m. snd (tick (shift (draws n rnd' s0) rnd') (ticks n rnd' s0)))"
  proof
    assume full: "infected (houses (ticks m rnd' s0)) = nat N"
    have "m \<noteq> 0"
    proof
      assume "m = 0"
      with full hs have "nat N = 0"
        by (simp add: infected_replicate_False)
      with assms(3) show False
        by simp
    qed
    then obtain n where m: "m = Suc n"
      by (cases m) auto
    have "all_infected (houses (ticks (Suc n) rnd' s0))"
      using full infected_eq_length [of "houses (ticks m rnd' s0)"] len [of m] m by simp
    with sig m show "\<exists>n<m. snd (tick (shift (draws n rnd' s0) rnd') (ticks n rnd' s0))"
      by blast
  next
    assume "\<exists>n<m. snd (tick (shift (draws n rnd' s0) rnd') (ticks n rnd' s0))"
    then obtain n where n: "n < m" "all_infected (houses (ticks (Suc n) rnd' s0))"
      using sig by blast
    have "all_infected (houses (ticks m rnd' s0))"
      by (rule ticks_all_infected_later [OF ne n(2)]) (use n(1) in simp)
    then show "infected (houses (ticks m rnd' s0)) = nat N"
      using infected_eq_length [of "houses (ticks m rnd' s0)"] len [of m] by simp
  qed
  from z i d run tick_day [of rnd s] show ?thesis
    by blast
qed

theorem tick_step_invariants_witness:
  "houses \<lparr>zombies = 1, day = 0, houses = [False], timer = None, onDone = NotDefined\<rparr> \<noteq> []
   \<and> Simulation 1 =
       Inr \<lparr>zombies = 1, day = 0, houses = [False], timer = None, onDone = NotDefined\<rparr>
   \<and> (1 :: int) \<le> 1
   \<and> zombies (fst (tick always_zero
         \<lparr>zombies = 1, day = 0, houses = [False], timer = None, onDone = NotDefined\<rparr>)) = 2
   \<and> day (fst (tick always_zero
         \<lparr>zombies = 1, day = 0, houses = [False], timer = None, onDone = NotDefined\<rparr>)) = 1
   \<and> snd (tick always_zero
         \<lparr>zombies = 1, day = 0, houses = [False], timer = None, onDone = NotDefined\<rparr>)
   \<and> infected (houses (ticks 1 always_zero
         \<lparr>zombies = 1, day = 0, houses = [False], timer = None, onDone = NotDefined\<rparr>)) = 1"
proof -
  have c: "Simulation 1 =
      Inr \<lparr>zombies = 1, day = 0, houses = [False], timer = None, onDone = NotDefined\<rparr>"
    by (simp add: Simulation_def)
  have t: "tick always_zero
        \<lparr>zombies = 1, day = 0, houses = [False], timer = None, onDone = NotDefined\<rparr> =
      (\<lparr>zombies = 2, day = 1, houses = [True], timer = None, onDone = NotDefined\<rparr>, True)"
    by (simp add: tick_def tick_loop.simps enter_def randomHouseNumber_def always_zero_def
        the_draw.rep_eq all_infected_def)
  show ?thesis
    using tick_step_invariants
      [of "\<lparr>zombies = 1, day = 0, houses = [False], timer = None, onDone = NotDefined\<rparr>"
        1 "\<lparr>zombies = 1, day = 0, houses = [False], timer = None, onDone = NotDefined\<rparr>"
        always_zero 1 always_zero] c
    by (simp add: t [unfolded One_nat_def] shift_always_zero infected_def)
qed

text \<open>
  C9 as amended: on a run with at least one house, all infected, a further tick leaves
  the houses and the zombie count as they were, but it adds one to the day counter, and
  it takes the completion branch again.
\<close>

theorem tick_after_completion:
  assumes "houses s \<noteq> []" and "all_infected (houses s)"
  shows "houses (fst (tick rnd s)) = houses s
       \<and> zombies (fst (tick rnd s)) = zombies s
       \<and> day (fst (tick rnd s)) = day s + 1
       \<and> snd (tick rnd s)"
  by (simp add: tick_all_infected [OF assms])

theorem tick_after_completion_witness:
  "houses \<lparr>zombies = 2, day = 1, houses = [True], timer = None, onDone = NotDefined\<rparr> \<noteq> []
   \<and> all_infected
        (houses \<lparr>zombies = 2, day = 1, houses = [True], timer = None, onDone = NotDefined\<rparr>)
   \<and> houses (fst (tick always_zero
        \<lparr>zombies = 2, day = 1, houses = [True], timer = None, onDone = NotDefined\<rparr>)) = [True]
   \<and> zombies (fst (tick always_zero
        \<lparr>zombies = 2, day = 1, houses = [True], timer = None, onDone = NotDefined\<rparr>)) = 2
   \<and> day (fst (tick always_zero
        \<lparr>zombies = 2, day = 1, houses = [True], timer = None, onDone = NotDefined\<rparr>)) = 2"
  using tick_after_completion
    [of "\<lparr>zombies = 2, day = 1, houses = [True], timer = None, onDone = NotDefined\<rparr>"
      always_zero]
  by (simp add: all_infected_def)

text \<open>
  The claim C9 as stated fails: the run of one house is complete after its first tick,
  with the day counter at 1, and a second tick moves the day counter to 2.
\<close>

theorem tick_after_completion_counterexample:
  "Simulation 1 =
     Inr \<lparr>zombies = 1, day = 0, houses = [False], timer = None, onDone = NotDefined\<rparr>
   \<and> tick always_zero
       \<lparr>zombies = 1, day = 0, houses = [False], timer = None, onDone = NotDefined\<rparr> =
      (\<lparr>zombies = 2, day = 1, houses = [True], timer = None, onDone = NotDefined\<rparr>, True)
   \<and> day (fst (tick always_zero
       \<lparr>zombies = 2, day = 1, houses = [True], timer = None, onDone = NotDefined\<rparr>)) = 2
   \<and> day (fst (tick always_zero
       \<lparr>zombies = 2, day = 1, houses = [True], timer = None, onDone = NotDefined\<rparr>)) \<noteq>
      day \<lparr>zombies = 2, day = 1, houses = [True], timer = None, onDone = NotDefined\<rparr>"
  by (simp add: Simulation_def tick_def tick_loop.simps enter_def randomHouseNumber_def
      always_zero_def the_draw.rep_eq all_infected_def numeral_2_eq_2)

text \<open>
  C10: in a run constructed with \<open>N \<ge> 1\<close> houses, at construction and after any number
  of ticks, the zombie count is one more than the number of infected houses; the next
  tick at most doubles it; and it is at most \<open>N + 1\<close>.
\<close>

theorem zombies_one_more_than_infected:
  assumes "Simulation N = Inr s0" and "1 \<le> N"
  shows "zombies (ticks n rnd s0) = 1 + infected (houses (ticks n rnd s0))
       \<and> zombies (fst (tick rnd' (ticks n rnd s0))) \<le> 2 * zombies (ticks n rnd s0)
       \<and> zombies (ticks n rnd s0) \<le> nat N + 1"
proof -
  have hs: "houses s0 = replicate (nat N) False" and ne: "houses s0 \<noteq> []"
    using Simulation_Inr(4) [OF assms(1)] assms(2) by auto
  have "zombies s0 = 1 + infected (houses s0)"
    using Simulation_Inr(2) [OF assms(1)] hs by (simp add: infected_replicate_False)
  then have inv: "zombies (ticks n rnd s0) = 1 + infected (houses (ticks n rnd s0))"
  proof (rule ticks_preserves)
    fix rnd and s :: simulation
    assume "zombies s = 1 + infected (houses s)"
    then show "zombies (fst (tick rnd s)) = 1 + infected (houses (fst (tick rnd s)))"
      using tick_infected [of rnd s] by simp
  qed
  have "infected (houses (ticks n rnd s0)) \<le> nat N"
    using infected_le_length [of "houses (ticks n rnd s0)"] ticks_length [OF ne, of n rnd] hs
    by simp
  with inv tick_zombies_bounds [of "ticks n rnd s0" rnd'] show ?thesis
    by simp
qed

theorem zombies_one_more_than_infected_witness:
  "Simulation 2 =
     Inr \<lparr>zombies = 1, day = 0, houses = [False, False], timer = None, onDone = NotDefined\<rparr>
   \<and> (1 :: int) \<le> 2
   \<and> zombies (ticks 1 always_zero
       \<lparr>zombies = 1, day = 0, houses = [False, False], timer = None, onDone = NotDefined\<rparr>) = 2
   \<and> infected (houses (ticks 1 always_zero
       \<lparr>zombies = 1, day = 0, houses = [False, False], timer = None, onDone = NotDefined\<rparr>)) = 1"
proof -
  have c: "Simulation 2 =
     Inr \<lparr>zombies = 1, day = 0, houses = [False, False], timer = None, onDone = NotDefined\<rparr>"
    by (simp add: Simulation_def numeral_2_eq_2)
  have t: "tick always_zero
       \<lparr>zombies = 1, day = 0, houses = [False, False], timer = None, onDone = NotDefined\<rparr> =
     (\<lparr>zombies = 2, day = 1, houses = [True, False], timer = None, onDone = NotDefined\<rparr>,
      False)"
    by (simp add: tick_def tick_loop.simps enter_def randomHouseNumber_def always_zero_def
        the_draw.rep_eq all_infected_def)
  show ?thesis
    using zombies_one_more_than_infected [OF c, of 1 always_zero always_zero] c
    by (simp add: t [unfolded One_nat_def] shift_always_zero infected_def)
qed


section \<open>The summary of the results\<close>

lemma fold_add: "fold add ds rs = rs @ ds"
  by (induction ds arbitrary: rs) (simp_all add: add_def)

lemma to_number_small: "x \<le> 2 ^ 53 \<Longrightarrow> to_number x = Number (double x)"
  by (simp add: to_number_def)

lemma to_number_not_NaN: "to_number x \<noteq> NaN"
  by (simp add: to_number_def)

text \<open>As long as the sum is at most \<open>2 ^ 53\<close>, no addition rounds.\<close>

lemma foldl_plus_exact:
  "a + sum_list ds \<le> 2 ^ 53 \<Longrightarrow>
   foldl (\<lambda>prev curr. plus_number prev (of_nat curr)) (Number (of_nat a)) ds =
     Number (of_nat (a + sum_list ds))"
proof (induction ds arbitrary: a)
  case Nil
  then show ?case by simp
next
  case (Cons d ds)
  have le: "a + d \<le> 2 ^ 53"
    using Cons.prems by simp
  then have "(of_nat (a + d) :: rat) \<le> of_nat (2 ^ 53)"
    by (simp only: of_nat_le_iff)
  then have "(of_nat a :: rat) + of_nat d \<le> 2 ^ 53"
    by simp
  then have "plus_number (Number (of_nat a)) (of_nat d) = Number (double (of_nat a + of_nat d))"
    by (simp add: plus_number_def to_number_small)
  also have "double (of_nat a + of_nat d) = double (of_nat (a + d))"
    by simp
  also have "\<dots> = of_nat (a + d)"
    by (rule double_of_nat [OF le])
  finally have step: "plus_number (Number (of_nat a)) (of_nat d) = Number (of_nat (a + d))" .
  have "a + d + sum_list ds \<le> 2 ^ 53"
    using Cons.prems by simp
  from Cons.IH [OF this] show ?case
    by (simp add: step add.assoc)
qed

lemma foldl_plus_not_NaN:
  "a \<noteq> NaN \<Longrightarrow> foldl (\<lambda>prev curr. plus_number prev (of_nat curr)) a ds \<noteq> NaN"
proof (induction ds arbitrary: a)
  case Nil
  then show ?case by simp
next
  case (Cons d ds)
  have "plus_number a (of_nat d) \<noteq> NaN"
    using Cons.prems by (cases a) (simp_all add: plus_number_def to_number_not_NaN)
  from Cons.IH [OF this] show ?case
    by simp
qed

lemma render_not_NaN: "rs \<noteq> [] \<Longrightarrow> averageDays (render rs) \<noteq> NaN"
  using foldl_plus_not_NaN [of "Number 0" rs]
  by (cases "foldl (\<lambda>prev curr. plus_number prev (of_nat curr)) (Number 0) rs")
    (simp_all add: render_def Let_def divide_number_def to_number_not_NaN)

lemma to_number_54: "x \<le> 2 ^ 54 \<Longrightarrow> to_number x = Number (double x)"
  by (simp add: to_number_def)

lemma render_sum_exact:
  assumes "ds \<noteq> []" and "sum_list ds \<le> 2 ^ 53"
  shows "render (fold add ds []) =
           \<lparr>iterations = length ds,
            averageDays = Number (double (of_nat (sum_list ds) / of_nat (length ds)))\<rparr>"
proof -
  have tot: "foldl (\<lambda>prev curr. plus_number prev (of_nat curr)) (Number 0) ds =
      Number (of_nat (sum_list ds))"
    using foldl_plus_exact [of 0 ds] assms(2) by simp
  have "Suc 0 \<le> length ds"
    using assms(1) by (cases ds) simp_all
  then have "(of_nat (Suc 0) :: rat) \<le> of_nat (length ds)"
    by (simp only: of_nat_le_iff)
  then have n: "(1 :: rat) \<le> of_nat (length ds)"
    by simp
  have "(of_nat (sum_list ds) :: rat) \<le> of_nat (2 ^ 53)"
    using assms(2) by (simp only: of_nat_le_iff)
  then have s: "(of_nat (sum_list ds) :: rat) \<le> 2 ^ 53"
    by simp
  have "(of_nat (sum_list ds) :: rat) / of_nat (length ds) \<le> of_nat (sum_list ds) / 1"
    using n assms(1) by (intro divide_left_mono) simp_all
  with s have "(of_nat (sum_list ds) :: rat) / of_nat (length ds) \<le> 2 ^ 53"
    by simp
  then have "to_number (of_nat (sum_list ds) / of_nat (length ds)) =
      Number (double (of_nat (sum_list ds) / of_nat (length ds)))"
    by (rule to_number_small)
  then show ?thesis
    using assms(1) by (simp add: render_def Let_def fold_add tot divide_number_def)
qed

text \<open>
  C5 as amended: after the day counts \<open>ds\<close>, at least one and with a sum of at most
  \<open>2 ^ 53\<close>, have been recorded in this order, \<open>render\<close> gives the count \<open>length ds\<close> and,
  as the average, the double nearest to \<open>sum_list ds / length ds\<close>; that is the quotient
  itself where the quotient is a double. For 10, 20, 30 these are 3 and 20, which is
  the witness.
\<close>

theorem render_average:
  assumes "ds \<noteq> []" and "sum_list ds \<le> 2 ^ 53"
  shows "render (fold add ds []) =
           \<lparr>iterations = length ds,
            averageDays = Number (double (of_nat (sum_list ds) / of_nat (length ds)))\<rparr>
       \<and> (double (of_nat (sum_list ds) / of_nat (length ds)) =
            of_nat (sum_list ds) / of_nat (length ds) \<longrightarrow>
          averageDays (render (fold add ds [])) =
            Number (of_nat (sum_list ds) / of_nat (length ds)))"
  by (simp add: render_sum_exact [OF assms])

theorem render_average_witness:
  "[10, 20, 30 :: nat] \<noteq> []
   \<and> sum_list [10, 20, 30 :: nat] \<le> 2 ^ 53
   \<and> double (of_nat (sum_list [10, 20, 30]) / of_nat (length [10, 20, 30 :: nat])) =
       of_nat (sum_list [10, 20, 30]) / of_nat (length [10, 20, 30 :: nat])
   \<and> render (fold add [10, 20, 30] []) = \<lparr>iterations = 3, averageDays = Number 20\<rparr>"
proof -
  have d: "double 20 = 20"
    using double_of_nat [of 20] by simp
  show ?thesis
    using render_average [of "[10, 20, 30]"] by (simp add: d)
qed

text \<open>
  The claim C5 as stated fails. For 1, 1, 2 the average given is the double nearest to
  4/3, which is not 4/3. For \<open>2 ^ 53\<close>, 1, 1 the additions round, the sum stays at
  \<open>2 ^ 53\<close>, and the average given is not even the double nearest to the sum of the three
  divided by 3.
\<close>

theorem render_average_counterexample:
  "averageDays (render (fold add [1, 1, 2] [])) =
     Number (6004799503160661 / 4503599627370496)
   \<and> averageDays (render (fold add [1, 1, 2] [])) \<noteq>
       Number (of_nat (sum_list [1, 1, 2]) / of_nat (length [1, 1, 2 :: nat]))
   \<and> averageDays (render (fold add [9007199254740992, 1, 1] [])) =
       Number (6004799503160661 / 2)
   \<and> double (of_nat (sum_list [9007199254740992, 1, 1])
        / of_nat (length [9007199254740992, 1, 1 :: nat])) = 6004799503160663 / 2"
proof -
  have d1: "double (4 / 3) = 6004799503160661 / 4503599627370496"
  proof -
    have "rne ((4 / 3) / 2 powi (0 - 52)) = 6004799503160661"
      by (rule rne_down) (simp_all add: power_int_minus_divide)
    from double_eval [OF _ _ _ _ this] show ?thesis
      by (simp add: power_int_minus_divide)
  qed
  have a: "averageDays (render (fold add [1, 1, 2] [])) =
      Number (6004799503160661 / 4503599627370496)"
    using render_sum_exact [of "[1, 1, 2]"] by (simp add: d1)
  have d2: "double 9007199254740993 = 9007199254740992"
  proof -
    have "rne (9007199254740993 / 2 powi (53 - 52)) = 4503599627370496"
      by (rule rne_tie_even) simp_all
    from double_eval [OF _ _ _ _ this] show ?thesis
      by simp
  qed
  have d3: "double 9007199254740992 = 9007199254740992"
    using double_of_nat [of 9007199254740992] by simp
  have d4: "double (9007199254740992 / 3) = 6004799503160661 / 2"
  proof -
    have "rne ((9007199254740992 / 3) / 2 powi (51 - 52)) = 6004799503160661"
      by (rule rne_down) (simp_all add: power_int_minus_divide)
    from double_eval [OF _ _ _ _ this] show ?thesis
      by (simp add: power_int_minus_divide)
  qed
  have d5: "double (9007199254740994 / 3) = 6004799503160663 / 2"
  proof -
    have "rne ((9007199254740994 / 3) / 2 powi (51 - 52)) = 6004799503160662 + 1"
      by (rule rne_up) (simp_all add: power_int_minus_divide)
    from double_eval [OF _ _ _ _ this] show ?thesis
      by (simp add: power_int_minus_divide)
  qed
  have b: "averageDays (render (fold add [9007199254740992, 1, 1] [])) =
      Number (6004799503160661 / 2)"
    by (simp add: render_def Let_def add_def plus_number_def divide_number_def to_number_54
        d2 d3 d4)
  from a b d5 show ?thesis
    by simp
qed

section \<open>The random source that always draws 0\<close>

lemma enter_zero:
  "hs \<noteq> [] \<Longrightarrow>
   enter (the_draw 0) (hs, n) = (if hs ! 0 then (hs, n) else (hs[0 := True], n + 1))"
  by (simp add: enter_def randomHouseNumber_def the_draw.rep_eq)

lemma fold_enter_zero:
  "hs \<noteq> [] \<Longrightarrow> hs ! 0 \<Longrightarrow> fold enter (map always_zero ks) (hs, n) = (hs, n)"
  by (induction ks) (simp_all add: enter_zero always_zero_def)

lemma tick_always_zero_first:
  assumes "houses s \<noteq> []" and "\<not> houses s ! 0" and "zombies s = 1"
  shows "fst (tick always_zero s) =
           s\<lparr>day := day s + 1, houses := (houses s)[0 := True], zombies := 2\<rparr>"
  using assms
  by (simp add: tick_def tick_loop.simps enter_zero always_zero_def)

lemma tick_always_zero_later:
  assumes "houses s \<noteq> []" and "houses s ! 0"
  shows "fst (tick always_zero s) = s\<lparr>day := day s + 1\<rparr>"
  using assms
  by (simp add: tick_def tick_loop_fold fold_enter_zero)

lemma ticks_always_zero_later:
  "houses s \<noteq> [] \<Longrightarrow> houses s ! 0 \<Longrightarrow> ticks n always_zero s = s\<lparr>day := day s + n\<rparr>"
proof (induction n arbitrary: s)
  case 0
  then show ?case by simp
next
  case (Suc n)
  have "ticks (Suc n) always_zero s = ticks n always_zero (s\<lparr>day := day s + 1\<rparr>)"
    using Suc.prems by (simp add: shift_always_zero tick_always_zero_later)
  also have "\<dots> = s\<lparr>day := day s + 1\<rparr>\<lparr>day := day (s\<lparr>day := day s + 1\<rparr>) + n\<rparr>"
    by (rule Suc.IH) (use Suc.prems in simp_all)
  finally show ?case
    by simp
qed

lemma always_zero_run:
  assumes "Simulation N = Inr s0" and "1 \<le> N"
  shows "ticks (Suc n) always_zero s0 =
           s0\<lparr>day := Suc n, houses := True # replicate (nat N - 1) False, zombies := 2\<rparr>"
proof -
  have hs: "houses s0 = False # replicate (nat N - 1) False"
    using Simulation_Inr(4) [OF assms(1)] assms(2)
    by (cases "nat N") simp_all
  have first: "fst (tick always_zero s0) =
      s0\<lparr>day := 1, houses := True # replicate (nat N - 1) False, zombies := 2\<rparr>"
    using tick_always_zero_first [of s0] Simulation_Inr(2,3) [OF assms(1)] hs by simp
  have "ticks (Suc n) always_zero s0 = ticks n always_zero (fst (tick always_zero s0))"
    by (simp add: shift_always_zero)
  also have "\<dots> = (fst (tick always_zero s0))\<lparr>day := day (fst (tick always_zero s0)) + n\<rparr>"
    by (rule ticks_always_zero_later) (simp_all add: first)
  finally show ?thesis
    by (simp add: first)
qed

text \<open>
  C6: with 100 houses and a random source that always gives the index 0, after the
  first tick and after every later one house 0 is infected and the houses 1 to 99 are
  not, the zombie count is 2, and the tick has not signalled completion; the run is not
  complete at construction either. So the timer is never cleared.
\<close>

theorem always_zero_never_completes:
  assumes "Simulation 100 = Inr s0"
  shows "\<not> all_infected (houses s0)
       \<and> houses (ticks (Suc n) always_zero s0) = True # replicate 99 False
       \<and> zombies (ticks (Suc n) always_zero s0) = 2
       \<and> day (ticks (Suc n) always_zero s0) = Suc n
       \<and> \<not> all_infected (houses (ticks (Suc n) always_zero s0))
       \<and> \<not> snd (tick (shift (draws n always_zero s0) always_zero) (ticks n always_zero s0))"
proof -
  have run: "ticks (Suc n) always_zero s0 =
      s0\<lparr>day := Suc n, houses := True # replicate 99 False, zombies := 2\<rparr>"
    using always_zero_run [OF assms, of n] by simp
  have "replicate 99 False = False # replicate 98 False"
    using replicate_Suc [of 98 False] by simp
  then have no: "\<not> all_infected (True # replicate 99 False)"
    by (simp add: all_infected_def)
  have "snd (tick (shift (draws n always_zero s0) always_zero) (ticks n always_zero s0)) =
      all_infected (houses (ticks (Suc n) always_zero s0))"
    by (simp only: ticks_Suc_end tick_done)
  moreover have "\<not> all_infected (houses s0)"
    using Simulation_Inr(4) [OF assms] by (simp add: all_infected_def)
  ultimately show ?thesis
    using no by (simp add: run del: ticks.simps)
qed

theorem always_zero_never_completes_witness:
  "Simulation 100 =
     Inr \<lparr>zombies = 1, day = 0, houses = replicate 100 False, timer = None,
          onDone = NotDefined\<rparr>
   \<and> houses (ticks (Suc 0) always_zero
       \<lparr>zombies = 1, day = 0, houses = replicate 100 False, timer = None,
        onDone = NotDefined\<rparr>) = True # replicate 99 False
   \<and> zombies (ticks (Suc 0) always_zero
       \<lparr>zombies = 1, day = 0, houses = replicate 100 False, timer = None,
        onDone = NotDefined\<rparr>) = 2"
proof -
  have c: "Simulation 100 =
     Inr \<lparr>zombies = 1, day = 0, houses = replicate 100 False, timer = None,
          onDone = NotDefined\<rparr>"
    by (simp add: Simulation_def)
  from always_zero_never_completes [OF c, of 0] c show ?thesis
    by blast
qed


section \<open>Houses that have been drawn\<close>

lemma enter_marks:
  "hs \<noteq> [] \<Longrightarrow> fst (enter d (hs, n)) ! randomHouseNumber d (length hs)"
  using randomHouseNumber_less [of "length hs" d]
  by (simp add: enter_def Let_def)

lemma fold_enter_keeps:
  "i < length hs \<Longrightarrow> hs ! i \<Longrightarrow> fst (fold enter ds (hs, n)) ! i"
proof (induction ds arbitrary: hs n)
  case Nil
  then show ?case by simp
next
  case (Cons d ds)
  obtain hs' n' where e: "enter d (hs, n) = (hs', n')"
    by (cases "enter d (hs, n)")
  have ne: "hs \<noteq> []"
    using Cons.prems(1) by auto
  have "length hs' = length hs" "hs' ! i"
    using enter_length [OF ne, of d n] enter_keeps [OF Cons.prems, of d n] e by simp_all
  with Cons.IH [of hs' n'] Cons.prems(1) e show ?case
    by simp
qed

lemma fold_enter_marks:
  "hs \<noteq> [] \<Longrightarrow> d \<in> set ds \<Longrightarrow>
   fst (fold enter ds (hs, n)) ! randomHouseNumber d (length hs)"
proof (induction ds arbitrary: hs n)
  case Nil
  then show ?case by simp
next
  case (Cons d' ds)
  obtain hs' n' where e: "enter d' (hs, n) = (hs', n')"
    by (cases "enter d' (hs, n)")
  have len: "length hs' = length hs"
    using enter_length [OF Cons.prems(1), of d' n] e by simp
  then have ne': "hs' \<noteq> []"
    using Cons.prems(1) by auto
  show ?case
  proof (cases "d = d'")
    case True
    have "hs' ! randomHouseNumber d (length hs)"
      using enter_marks [OF Cons.prems(1), of d n] e True by simp
    moreover have "randomHouseNumber d (length hs) < length hs'"
      using randomHouseNumber_less [of "length hs" d] Cons.prems(1) len by simp
    ultimately show ?thesis
      using fold_enter_keeps [of "randomHouseNumber d (length hs)" hs' ds n'] e by simp
  next
    case False
    with Cons.prems(2) have "d \<in> set ds"
      by simp
    from Cons.IH [OF ne' this, of n'] len e show ?thesis
      by simp
  qed
qed

lemma tick_keeps:
  "i < length (houses s) \<Longrightarrow> houses s ! i \<Longrightarrow> houses (fst (tick rnd s)) ! i"
  by (simp add: tick_houses fold_enter_keeps)

lemma tick_marks:
  assumes "houses s \<noteq> []" and "k < zombies s"
  shows "houses (fst (tick rnd s)) ! randomHouseNumber (rnd k) (length (houses s))"
proof -
  have "rnd k \<in> set (map rnd [0..<zombies s])"
    using assms(2) by simp
  from fold_enter_marks [OF assms(1) this] show ?thesis
    by (simp add: tick_houses)
qed

lemma ticks_keeps:
  "i < length (houses s) \<Longrightarrow> houses s ! i \<Longrightarrow> houses (ticks n rnd s) ! i"
proof (induction n arbitrary: rnd s)
  case 0
  then show ?case by simp
next
  case (Suc n)
  have ne: "houses s \<noteq> []"
    using Suc.prems(1) by auto
  have "i < length (houses (fst (tick rnd s)))"
    using tick_length [OF ne, of rnd] Suc.prems(1) by simp
  from Suc.IH [OF this tick_keeps [OF Suc.prems]] show ?case
    by simp
qed

lemma ticks_marks:
  "houses s \<noteq> [] \<Longrightarrow> k < draws n rnd s \<Longrightarrow>
   houses (ticks n rnd s) ! randomHouseNumber (rnd k) (length (houses s))"
proof (induction n arbitrary: rnd s k)
  case 0
  then show ?case by simp
next
  case (Suc n)
  let ?s = "fst (tick rnd s)"
  have len: "length (houses ?s) = length (houses s)"
    by (rule tick_length [OF Suc.prems(1)])
  then have ne': "houses ?s \<noteq> []"
    using Suc.prems(1) by auto
  have idx: "randomHouseNumber (rnd k) (length (houses s)) < length (houses ?s)"
    using randomHouseNumber_less [of "length (houses s)" "rnd k"] Suc.prems(1) len by simp
  show ?case
  proof (cases "k < zombies s")
    case True
    from ticks_keeps [OF idx tick_marks [OF Suc.prems(1) True]] show ?thesis
      by simp
  next
    case False
    then have "k - zombies s < draws n (shift (zombies s) rnd) ?s"
      using Suc.prems(2) by simp
    from Suc.IH [OF ne' this] False len show ?thesis
      by (simp add: shift_def)
  qed
qed

lemma draws_ge: "1 \<le> zombies s \<Longrightarrow> n \<le> draws n rnd s"
proof (induction n arbitrary: rnd s)
  case 0
  then show ?case by simp
next
  case (Suc n)
  have "1 \<le> zombies (fst (tick rnd s))"
    using tick_zombies_bounds [of s rnd] Suc.prems by linarith
  from Suc.IH [OF this, of "shift (zombies s) rnd"] Suc.prems show ?case
    by simp
qed

lemma enter_only:
  assumes "i < length hs" and "fst (enter d (hs, n)) ! i"
  shows "hs ! i \<or> randomHouseNumber d (length hs) = i"
proof -
  have "0 < length hs"
    using assms(1) by linarith
  then have "randomHouseNumber d (length hs) < length hs"
    by (rule randomHouseNumber_less)
  with assms show ?thesis
    by (auto simp: enter_def Let_def nth_list_update split: if_splits)
qed

lemma fold_enter_only:
  "i < length hs \<Longrightarrow> fst (fold enter ds (hs, n)) ! i \<Longrightarrow>
   hs ! i \<or> (\<exists>d \<in> set ds. randomHouseNumber d (length hs) = i)"
proof (induction ds arbitrary: hs n)
  case Nil
  then show ?case by simp
next
  case (Cons d ds)
  obtain hs' n' where e: "enter d (hs, n) = (hs', n')"
    by (cases "enter d (hs, n)")
  have ne: "hs \<noteq> []"
    using Cons.prems(1) by auto
  have len: "length hs' = length hs"
    using enter_length [OF ne, of d n] e by simp
  have "fst (fold enter ds (hs', n')) ! i"
    using Cons.prems(2) e by simp
  with Cons.IH [of hs' n'] Cons.prems(1) len
  have "hs' ! i \<or> (\<exists>d \<in> set ds. randomHouseNumber d (length hs) = i)"
    by simp
  moreover have "hs ! i \<or> randomHouseNumber d (length hs) = i" if "hs' ! i"
    using enter_only [OF Cons.prems(1), of d n] e that by simp
  ultimately show ?case
    by auto
qed

lemma tick_only:
  assumes "i < length (houses s)" and "houses (fst (tick rnd s)) ! i"
  shows "houses s ! i \<or> (\<exists>k<zombies s. randomHouseNumber (rnd k) (length (houses s)) = i)"
proof -
  from fold_enter_only [OF assms(1), of "map rnd [0..<zombies s]" 0] assms(2)
  have "houses s ! i
      \<or> (\<exists>d \<in> set (map rnd [0..<zombies s]). randomHouseNumber d (length (houses s)) = i)"
    by (simp add: tick_houses)
  then show ?thesis
    by auto
qed

lemma ticks_only:
  "i < length (houses s) \<Longrightarrow> houses (ticks n rnd s) ! i \<Longrightarrow>
   houses s ! i \<or> (\<exists>k<draws n rnd s. randomHouseNumber (rnd k) (length (houses s)) = i)"
proof (induction n arbitrary: rnd s)
  case 0
  then show ?case by simp
next
  case (Suc n)
  let ?s = "fst (tick rnd s)"
  have ne: "houses s \<noteq> []"
    using Suc.prems(1) by auto
  have len: "length (houses ?s) = length (houses s)"
    by (rule tick_length [OF ne])
  have "houses (ticks n (shift (zombies s) rnd) ?s) ! i"
    using Suc.prems(2) by simp
  with Suc.IH [of ?s "shift (zombies s) rnd"] Suc.prems(1) len
  have "houses ?s ! i
      \<or> (\<exists>k<draws n (shift (zombies s) rnd) ?s.
            randomHouseNumber (rnd (zombies s + k)) (length (houses s)) = i)"
    by (simp add: shift_def)
  then show ?case
  proof
    assume "houses ?s ! i"
    from tick_only [OF Suc.prems(1) this] show ?thesis
      by (auto intro: trans_less_add1)
  next
    assume "\<exists>k<draws n (shift (zombies s) rnd) ?s.
            randomHouseNumber (rnd (zombies s + k)) (length (houses s)) = i"
    then obtain k where "k < draws n (shift (zombies s) rnd) ?s"
      and "randomHouseNumber (rnd (zombies s + k)) (length (houses s)) = i"
      by blast
    then have "zombies s + k < draws (Suc n) rnd s
        \<and> randomHouseNumber (rnd (zombies s + k)) (length (houses s)) = i"
      by simp
    then show ?thesis
      by blast
  qed
qed

text \<open>
  After \<open>n\<close> ticks of a run constructed with \<open>N \<ge> 1\<close> houses, the infected houses are those
  whose index has been drawn.
\<close>

lemma infected_iff_drawn:
  assumes "Simulation N = Inr s0" and "1 \<le> N" and "i < nat N"
  shows "houses (ticks n rnd s0) ! i \<longleftrightarrow>
           (\<exists>k<draws n rnd s0. randomHouseNumber (rnd k) (nat N) = i)"
proof -
  have hs: "houses s0 = replicate (nat N) False" and ne: "houses s0 \<noteq> []"
    using Simulation_Inr(4) [OF assms(1)] assms(2) by auto
  have len0: "length (houses s0) = nat N"
    using hs by simp
  have i0: "i < length (houses s0)"
    using assms(3) len0 by simp
  have no: "\<not> houses s0 ! i"
    using hs assms(3) by simp
  show ?thesis
  proof
    assume "houses (ticks n rnd s0) ! i"
    from ticks_only [OF i0 this] no len0
    show "\<exists>k<draws n rnd s0. randomHouseNumber (rnd k) (nat N) = i"
      by simp
  next
    assume "\<exists>k<draws n rnd s0. randomHouseNumber (rnd k) (nat N) = i"
    then obtain k where "k < draws n rnd s0" and "randomHouseNumber (rnd k) (nat N) = i"
      by blast
    with ticks_marks [OF ne, of k n rnd] len0 show "houses (ticks n rnd s0) ! i"
      by simp
  qed
qed

lemma all_infected_iff_drawn:
  assumes "Simulation N = Inr s0" and "1 \<le> N"
  shows "all_infected (houses (ticks n rnd s0)) \<longleftrightarrow>
           (\<forall>i<nat N. \<exists>k<draws n rnd s0. randomHouseNumber (rnd k) (nat N) = i)"
proof -
  have hs: "houses s0 = replicate (nat N) False" and ne: "houses s0 \<noteq> []"
    using Simulation_Inr(4) [OF assms(1)] assms(2) by auto
  have len: "length (houses (ticks n rnd s0)) = nat N"
    using ticks_length [OF ne, of n rnd] hs by simp
  have "all_infected (houses (ticks n rnd s0)) \<longleftrightarrow> (\<forall>i<nat N. houses (ticks n rnd s0) ! i)"
    unfolding all_infected_def in_set_conv_nth len by auto
  then show ?thesis
    using infected_iff_drawn [OF assms] by simp
qed

text \<open>
  C3 as amended: take a run constructed with \<open>N \<ge> 1\<close> houses and any draws. Its \<open>n\<close> first
  ticks consume at least \<open>n\<close> draws, and all houses are infected after them exactly when
  every index below \<open>N\<close> is the index computed from one of the draws consumed. So if
  every index below \<open>N\<close> is computed from one of the first \<open>p\<close> draws, the run signals
  completion in one of its first \<open>p\<close> ticks; and if some index below \<open>N\<close> is computed from
  no draw at all, the houses are never all infected.
\<close>

theorem run_completes_when_all_drawn:
  assumes "Simulation N = Inr s0" and "1 \<le> N"
  shows "n \<le> draws n rnd s0
       \<and> (all_infected (houses (ticks n rnd s0)) \<longleftrightarrow>
            (\<forall>i<nat N. \<exists>k<draws n rnd s0. randomHouseNumber (rnd k) (nat N) = i))
       \<and> ((\<forall>i<nat N. \<exists>k<p. randomHouseNumber (rnd k) (nat N) = i) \<longrightarrow>
            (\<exists>m<p. snd (tick (shift (draws m rnd s0) rnd) (ticks m rnd s0))
                  \<and> all_infected (houses (ticks (Suc m) rnd s0))))
       \<and> ((\<exists>i<nat N. \<forall>k. randomHouseNumber (rnd k) (nat N) \<noteq> i) \<longrightarrow>
            \<not> all_infected (houses (ticks n rnd s0)))"
proof -
  have ge: "q \<le> draws q rnd s0" for q
    by (rule draws_ge) (simp add: Simulation_Inr(2) [OF assms(1)])
  note iff = all_infected_iff_drawn [OF assms]
  have within: "\<exists>m<p. snd (tick (shift (draws m rnd s0) rnd) (ticks m rnd s0))
                  \<and> all_infected (houses (ticks (Suc m) rnd s0))"
    if cover: "\<forall>i<nat N. \<exists>k<p. randomHouseNumber (rnd k) (nat N) = i"
  proof -
    have "0 < nat N"
      using assms(2) by simp
    with cover obtain k0 where "k0 < p"
      by blast
    then obtain m where p: "p = Suc m"
      by (cases p) auto
    have "\<exists>k<draws p rnd s0. randomHouseNumber (rnd k) (nat N) = i" if "i < nat N" for i
    proof -
      from cover that obtain k where "k < p" and "randomHouseNumber (rnd k) (nat N) = i"
        by blast
      with ge [of p] have "k < draws p rnd s0 \<and> randomHouseNumber (rnd k) (nat N) = i"
        by simp
      then show ?thesis
        by blast
    qed
    then have full: "all_infected (houses (ticks (Suc m) rnd s0))"
      unfolding p by (simp only: iff) blast
    moreover have "snd (tick (shift (draws m rnd s0) rnd) (ticks m rnd s0))"
      using full by (simp only: ticks_Suc_end tick_done)
    ultimately show ?thesis
      using p by blast
  qed
  have never: "\<not> all_infected (houses (ticks n rnd s0))"
    if "\<exists>i<nat N. \<forall>k. randomHouseNumber (rnd k) (nat N) \<noteq> i"
    using that by (simp only: iff) blast
  from ge [of n] iff [of n rnd] within never show ?thesis
    by blast
qed

theorem run_completes_when_all_drawn_witness:
  "Simulation 2 =
     Inr \<lparr>zombies = 1, day = 0, houses = [False, False], timer = None, onDone = NotDefined\<rparr>
   \<and> (1 :: int) \<le> 2
   \<and> randomHouseNumber (zero_then_half 0) (nat 2) = 0
   \<and> randomHouseNumber (zero_then_half 1) (nat 2) = 1
   \<and> all_infected (houses (ticks 2 zero_then_half
        \<lparr>zombies = 1, day = 0, houses = [False, False], timer = None,
         onDone = NotDefined\<rparr>))"
proof -
  have c: "Simulation 2 =
     Inr \<lparr>zombies = 1, day = 0, houses = [False, False], timer = None, onDone = NotDefined\<rparr>"
    by (simp add: Simulation_def numeral_2_eq_2)
  have r: "randomHouseNumber (zero_then_half 0) (nat 2) = 0"
    "randomHouseNumber (zero_then_half 1) (nat 2) = 1"
    using zero_then_half_index(1) [of 2] zero_then_half_index(2) [of 0] by simp_all
  have one: "(1 :: int) \<le> 2"
    by simp
  note t = run_completes_when_all_drawn [OF c one, of 2 zero_then_half 2]
  have ge: "2 \<le> draws 2 zero_then_half
      \<lparr>zombies = 1, day = 0, houses = [False, False], timer = None, onDone = NotDefined\<rparr>"
    using t by (simp del: draws.simps)
  have "\<exists>k<draws 2 zero_then_half
      \<lparr>zombies = 1, day = 0, houses = [False, False], timer = None, onDone = NotDefined\<rparr>.
        randomHouseNumber (zero_then_half k) (nat 2) = i" if "i < nat 2" for i
  proof (cases "i = 0")
    case True
    with r(1) ge show ?thesis
      by (intro exI [of _ 0]) (simp del: draws.simps)
  next
    case False
    with that have "i = 1"
      by simp
    with r(2) ge show ?thesis
      by (intro exI [of _ 1]) (simp del: draws.simps)
  qed
  then have "all_infected (houses (ticks 2 zero_then_half
        \<lparr>zombies = 1, day = 0, houses = [False, False], timer = None,
         onDone = NotDefined\<rparr>))"
    using t [THEN conjunct2, THEN conjunct1] by blast
  with c r show ?thesis
    by (simp del: ticks.simps)
qed

text \<open>
  The claim C3 as stated fails: the run constructed with two houses, on the random
  source that always draws 0, has the second house uninfected after any number of ticks.
\<close>

theorem run_never_completes_counterexample:
  "Simulation 2 =
     Inr \<lparr>zombies = 1, day = 0, houses = [False, False], timer = None, onDone = NotDefined\<rparr>
   \<and> \<not> (\<exists>n. all_infected (houses (ticks n always_zero
        \<lparr>zombies = 1, day = 0, houses = [False, False], timer = None,
         onDone = NotDefined\<rparr>)))"
proof -
  have c: "Simulation 2 =
     Inr \<lparr>zombies = 1, day = 0, houses = [False, False], timer = None, onDone = NotDefined\<rparr>"
    by (simp add: Simulation_def numeral_2_eq_2)
  have "\<not> all_infected (houses (ticks n always_zero
        \<lparr>zombies = 1, day = 0, houses = [False, False], timer = None,
         onDone = NotDefined\<rparr>))" for n
  proof (cases n)
    case 0
    then show ?thesis
      by (simp add: all_infected_def)
  next
    case (Suc m)
    have "houses (ticks (Suc m) always_zero
        \<lparr>zombies = 1, day = 0, houses = [False, False], timer = None,
         onDone = NotDefined\<rparr>) = [True, False]"
      by (subst always_zero_run [OF c, of m]) simp_all
    then show ?thesis
      unfolding Suc by (simp add: all_infected_def del: ticks.simps)
  qed
  with c show ?thesis
    by blast
qed


section \<open>The application as constructed\<close>

lemma map_Simulation_Inr:
  "map_Simulation n h = Inr sims \<Longrightarrow> Simulation h = Inr s \<Longrightarrow> sims = replicate n s"
  by (induction n arbitrary: sims) (auto split: sum.splits)

lemma map_Simulation_Inl:
  "Simulation h = Inl e \<Longrightarrow> 0 < n \<Longrightarrow> map_Simulation n h = Inl e"
  by (cases n) simp_all

lemma chain_fold:
  "m \<le> length sims \<Longrightarrow>
   length (fold (\<lambda>current ss. ss[current - 1 := (ss ! (current - 1))\<lparr>onDone := AddAndStart current\<rparr>])
             [1..<m] sims) = length sims
   \<and> (\<forall>i<length sims.
        fold (\<lambda>current ss. ss[current - 1 := (ss ! (current - 1))\<lparr>onDone := AddAndStart current\<rparr>])
          [1..<m] sims ! i =
        (if Suc i < m then (sims ! i)\<lparr>onDone := AddAndStart (Suc i)\<rparr> else sims ! i))"
proof (induction m)
  case 0
  then show ?case by simp
next
  case (Suc m)
  show ?case
  proof (cases "m = 0")
    case True
    then show ?thesis by simp
  next
    case False
    then have "[1..<Suc m] = [1..<m] @ [m]"
      by simp
    with Suc False show ?thesis
      by (auto simp: nth_list_update less_Suc_eq)
  qed
qed

lemma initSynchronousSimulations_Inr:
  assumes "initSynchronousSimulations sims = Inr sims'"
  shows "sims \<noteq> []" and "length sims' = length sims"
    and "\<forall>i<length sims. sims' ! i =
           (sims ! i)\<lparr>onDone := (if Suc i = length sims then AddAndRender
                                  else AddAndStart (Suc i))\<rparr>"
proof -
  show ne: "sims \<noteq> []"
    using assms by (auto simp: initSynchronousSimulations_def split: if_splits)
  note c = chain_fold [of "length sims" sims, simplified]
  show "length sims' = length sims"
    using assms ne c by (auto simp: initSynchronousSimulations_def Let_def)
  show "\<forall>i<length sims. sims' ! i =
           (sims ! i)\<lparr>onDone := (if Suc i = length sims then AddAndRender
                                  else AddAndStart (Suc i))\<rparr>"
    using assms ne c
    by (auto simp: initSynchronousSimulations_def Let_def nth_list_update)
qed

lemma Application_Inr:
  assumes "Application k h = Inr a0"
  shows "1 \<le> k"
    and "\<exists>s0. Simulation h = Inr s0 \<and> length (simulations a0) = nat k
           \<and> (\<forall>i<nat k. simulations a0 ! i =
                 s0\<lparr>onDone := (if Suc i = nat k then AddAndRender else AddAndStart (Suc i))\<rparr>)"
    and "results a0 = []" and "page a0 = None" and "intervals a0 = []" and "calls a0 = []"
proof -
  from assms obtain sims sims' where
    k: "0 \<le> k" and m: "map_Simulation (nat k) h = Inr sims"
    and i: "initSynchronousSimulations sims = Inr sims'"
    and a0: "a0 = \<lparr>simulations = sims', results = [], page = None, intervals = [],
                    next_timer = 1, calls = []\<rparr>"
    by (auto simp: Application_def split: if_splits sum.splits)
  note init = initSynchronousSimulations_Inr [OF i]
  have "sims \<noteq> []"
    by (rule init(1))
  with m have pos: "0 < nat k"
    by (cases "nat k") auto
  then show "1 \<le> k"
    by simp
  obtain s0 where s0: "Simulation h = Inr s0"
    using m pos by (cases "Simulation h") (auto simp: map_Simulation_Inl)
  have sims: "sims = replicate (nat k) s0"
    by (rule map_Simulation_Inr [OF m s0])
  have "length (simulations a0) = nat k"
    using init(2) sims a0 by simp
  moreover have "\<forall>i<nat k. simulations a0 ! i =
      s0\<lparr>onDone := (if Suc i = nat k then AddAndRender else AddAndStart (Suc i))\<rparr>"
    using init(3) sims a0 by simp
  ultimately show "\<exists>s0. Simulation h = Inr s0 \<and> length (simulations a0) = nat k
           \<and> (\<forall>i<nat k. simulations a0 ! i =
                 s0\<lparr>onDone := (if Suc i = nat k then AddAndRender else AddAndStart (Suc i))\<rparr>)"
    using s0 by blast
  show "results a0 = []" "page a0 = None" "intervals a0 = []" "calls a0 = []"
    using a0 by simp_all
qed

lemma Application_rejects:
  "k < 1 \<Longrightarrow> Application k h = Inl (if k < 0 then RangeError else TypeError)"
  by (auto simp: Application_def initSynchronousSimulations_def)

lemma sequenced_run:
  assumes "Application k h = Inr a0"
  shows "sequenced (nat k) (run a0)"
proof -
  note A = Application_Inr [OF assms]
  from A(2) obtain s0 where s0: "Simulation h = Inr s0"
    and len: "length (simulations a0) = nat k"
    and sims: "\<forall>i<nat k. simulations a0 ! i =
                 s0\<lparr>onDone := (if Suc i = nat k then AddAndRender else AddAndStart (Suc i))\<rparr>"
    by blast
  have pos: "0 < nat k"
    using A(1) by simp
  have t: "timer s0 = None"
    by (rule Simulation_Inr(5) [OF s0])
  show ?thesis
    unfolding sequenced_def run_def start_def
    using pos len sims t A(3-6)
    by (simp add: nth_list_update)
qed

lemma unfinished_run:
  assumes "Application k h = Inr a0" and "1 \<le> h"
  shows "unfinished (run a0)"
proof -
  note A = Application_Inr [OF assms(1)]
  from A(2) obtain s0 where s0: "Simulation h = Inr s0"
    and len: "length (simulations a0) = nat k"
    and sims: "\<forall>i<nat k. simulations a0 ! i =
                 s0\<lparr>onDone := (if Suc i = nat k then AddAndRender else AddAndStart (Suc i))\<rparr>"
    by blast
  have hs: "houses s0 = False # replicate (nat h - 1) False"
    using Simulation_Inr(4) [OF s0] assms(2) by (cases "nat h") simp_all
  show ?thesis
    unfolding unfinished_def run_def start_def
    using len sims hs
    by (simp add: nth_list_update all_infected_def)
qed


section \<open>One callback\<close>

lemma calls_snoc:
  "map (\<lambda>i. (i, (rs @ [d]) ! i)) [0..<Suc (length rs)] =
     map (\<lambda>i. (i, rs ! i)) [0..<length rs] @ [(length rs, d)]"
  by (simp add: nth_append)

lemma fire_cases:
  assumes "sequenced k a" and "(t, i) \<in> set (intervals a)"
    and "tick rnd (simulations a ! i) = (s, d)"
  shows "i = length (results a)" and "i < k"
    and "\<not> d \<Longrightarrow> fire rnd i a = a\<lparr>simulations := (simulations a)[i := s]\<rparr>"
    and "d \<Longrightarrow> Suc i = k \<Longrightarrow>
           fire rnd i a =
             a\<lparr>simulations := (simulations a)[i := s], intervals := [],
               calls := calls a @ [(i, day s)], results := results a @ [day s],
               page := Some (render (results a @ [day s]))\<rparr>"
    and "d \<Longrightarrow> Suc i \<noteq> k \<Longrightarrow>
           fire rnd i a =
             a\<lparr>simulations := (simulations a)
                   [i := s, Suc i := (simulations a ! Suc i)\<lparr>timer := Some (next_timer a)\<rparr>],
               intervals := [(next_timer a, Suc i)],
               calls := calls a @ [(i, day s)], results := results a @ [day s],
               next_timer := next_timer a + 1\<rparr>"
proof -
  from assms(1,2) show i: "i = length (results a)" and k: "i < k"
    by (auto simp: sequenced_def split: if_splits)
  from assms(1,2) i k have iv: "intervals a = [(t, i)]"
    and tm: "timer (simulations a ! i) = Some t"
    and len: "length (simulations a) = k"
    and h: "onDone (simulations a ! i) = (if Suc i = k then AddAndRender else AddAndStart (Suc i))"
    by (auto simp: sequenced_def split: if_splits)
  have s: "timer s = Some t" "onDone s = onDone (simulations a ! i)"
    using tick_timer [of rnd "simulations a ! i"] tick_onDone [of rnd "simulations a ! i"]
      assms(3) tm by simp_all
  show "\<not> d \<Longrightarrow> fire rnd i a = a\<lparr>simulations := (simulations a)[i := s]\<rparr>"
    by (simp add: fire_def assms(3))
  show "d \<Longrightarrow> Suc i = k \<Longrightarrow>
           fire rnd i a =
             a\<lparr>simulations := (simulations a)[i := s], intervals := [],
               calls := calls a @ [(i, day s)], results := results a @ [day s],
               page := Some (render (results a @ [day s]))\<rparr>"
    using k len s h iv
    by (simp add: fire_def assms(3) stop_def call_onDone_def add_def)
  show "d \<Longrightarrow> Suc i \<noteq> k \<Longrightarrow>
           fire rnd i a =
             a\<lparr>simulations := (simulations a)
                   [i := s, Suc i := (simulations a ! Suc i)\<lparr>timer := Some (next_timer a)\<rparr>],
               intervals := [(next_timer a, Suc i)],
               calls := calls a @ [(i, day s)], results := results a @ [day s],
               next_timer := next_timer a + 1\<rparr>"
    using k len s h iv
    by (simp add: fire_def assms(3) stop_def call_onDone_def add_def start_def)
qed

lemma sequenced_step:
  assumes "sequenced k a" and "step a a'"
  shows "sequenced k a'"
proof -
  from assms(2) obtain t i rnd where ti: "(t, i) \<in> set (intervals a)"
    and a': "a' = fire rnd i a"
    by (auto elim: step.cases)
  obtain s d where td: "tick rnd (simulations a ! i) = (s, d)"
    by (cases "tick rnd (simulations a ! i)")
  note f = fire_cases [OF assms(1) ti td]
  from assms(1) ti f(1,2) have iv: "intervals a = [(t, i)]"
    and tm: "timer (simulations a ! i) = Some t"
    by (auto simp: sequenced_def split: if_splits)
  have s: "timer s = Some t" "onDone s = onDone (simulations a ! i)"
    "d = all_infected (houses s)"
    using tick_timer [of rnd "simulations a ! i"] tick_onDone [of rnd "simulations a ! i"]
      tick_done [of rnd "simulations a ! i"] td tm by simp_all
  show ?thesis
  proof (cases d)
    case False
    with assms(1) f(1,2) s(1,2) tm iv show ?thesis
      unfolding a' f(3) [OF False] sequenced_def
      by (auto simp: nth_list_update)
  next
    case d: True
    show ?thesis
    proof (cases "Suc i = k")
      case True
      with assms(1) f(1,2) s d show ?thesis
        unfolding a' f(4) [OF d True] sequenced_def
        by (auto simp: nth_list_update nth_append calls_snoc less_Suc_eq)
    next
      case False
      with assms(1) f(1,2) s d show ?thesis
        unfolding a' f(5) [OF d False] sequenced_def
        by (auto simp: nth_list_update nth_append calls_snoc less_Suc_eq)
    qed
  qed
qed

lemma unfinished_step:
  assumes "sequenced k a" and "unfinished a" and "step a a'"
  shows "unfinished a'"
proof -
  from assms(3) obtain t i rnd where ti: "(t, i) \<in> set (intervals a)"
    and a': "a' = fire rnd i a"
    by (auto elim: step.cases)
  obtain s d where td: "tick rnd (simulations a ! i) = (s, d)"
    by (cases "tick rnd (simulations a ! i)")
  note f = fire_cases [OF assms(1) ti td]
  have len: "length (simulations a) = k"
    using assms(1) by (simp add: sequenced_def)
  have ne: "houses (simulations a ! i) \<noteq> []"
    using assms(2) f(1,2) len by (simp add: unfinished_def)
  have s: "d = all_infected (houses s)" "houses s \<noteq> []"
    using tick_done [of rnd "simulations a ! i"] tick_length [OF ne, of rnd] ne td by auto
  show ?thesis
  proof (cases d)
    case False
    with assms(2) f(1,2) s len show ?thesis
      unfolding a' f(3) [OF False] unfinished_def
      by (auto simp: nth_list_update)
  next
    case d: True
    show ?thesis
    proof (cases "Suc i = k")
      case True
      with assms(2) f(1,2) len show ?thesis
        unfolding a' f(4) [OF d True] unfinished_def
        by (auto simp: nth_list_update)
    next
      case False
      with assms(2) f(1,2) len show ?thesis
        unfolding a' f(5) [OF d False] unfinished_def
        by (auto simp: nth_list_update)
    qed
  qed
qed

lemma sequenced_reachable:
  assumes "Application k h = Inr a0" and "step\<^sup>*\<^sup>* (run a0) a"
  shows "sequenced (nat k) a"
  using assms(2)
proof (induction rule: rtranclp_induct)
  case base
  show ?case by (rule sequenced_run [OF assms(1)])
next
  case (step a a')
  then show ?case by (blast intro: sequenced_step)
qed

lemma unfinished_reachable:
  assumes "Application k h = Inr a0" and "1 \<le> h" and "step\<^sup>*\<^sup>* (run a0) a"
  shows "unfinished a"
  using assms(3)
proof (induction rule: rtranclp_induct)
  case base
  show ?case by (rule unfinished_run [OF assms(1,2)])
next
  case (step a a')
  from unfinished_step [OF sequenced_reachable [OF assms(1) step.hyps(1)] step.IH step.hyps(2)]
  show ?case .
qed


section \<open>Two small applications, run\<close>

lemma Application_2_1:
  "Application 2 1 =
     Inr \<lparr>simulations =
            [\<lparr>zombies = 1, day = 0, houses = [False], timer = None, onDone = AddAndStart 1\<rparr>,
             \<lparr>zombies = 1, day = 0, houses = [False], timer = None, onDone = AddAndRender\<rparr>],
          results = [], page = None, intervals = [], next_timer = 1, calls = []\<rparr>"
  by (simp add: Application_def Simulation_def initSynchronousSimulations_def numeral_2_eq_2
      upt_rec)

lemma run_2_1:
  "run \<lparr>simulations =
            [\<lparr>zombies = 1, day = 0, houses = [False], timer = None, onDone = AddAndStart 1\<rparr>,
             \<lparr>zombies = 1, day = 0, houses = [False], timer = None, onDone = AddAndRender\<rparr>],
          results = [], page = None, intervals = [], next_timer = 1, calls = []\<rparr> =
     \<lparr>simulations =
        [\<lparr>zombies = 1, day = 0, houses = [False], timer = Some 1, onDone = AddAndStart 1\<rparr>,
         \<lparr>zombies = 1, day = 0, houses = [False], timer = None, onDone = AddAndRender\<rparr>],
      results = [], page = None, intervals = [(1, 0)], next_timer = 2, calls = []\<rparr>"
  by (simp add: run_def start_def)

lemma fire_2_1:
  "fire always_zero 0
     \<lparr>simulations =
        [\<lparr>zombies = 1, day = 0, houses = [False], timer = Some 1, onDone = AddAndStart 1\<rparr>,
         \<lparr>zombies = 1, day = 0, houses = [False], timer = None, onDone = AddAndRender\<rparr>],
      results = [], page = None, intervals = [(1, 0)], next_timer = 2, calls = []\<rparr> =
     \<lparr>simulations =
        [\<lparr>zombies = 2, day = 1, houses = [True], timer = Some 1, onDone = AddAndStart 1\<rparr>,
         \<lparr>zombies = 1, day = 0, houses = [False], timer = Some 2, onDone = AddAndRender\<rparr>],
      results = [1], page = None, intervals = [(2, 1)], next_timer = 3, calls = [(0, 1)]\<rparr>"
  by (simp add: fire_def tick_def tick_loop.simps enter_def randomHouseNumber_def
      always_zero_def the_draw.rep_eq all_infected_def stop_def call_onDone_def add_def
      start_def)

lemma Application_1_1:
  "Application 1 1 =
     Inr \<lparr>simulations =
            [\<lparr>zombies = 1, day = 0, houses = [False], timer = None, onDone = AddAndRender\<rparr>],
          results = [], page = None, intervals = [], next_timer = 1, calls = []\<rparr>"
  by (simp add: Application_def Simulation_def initSynchronousSimulations_def)

lemma fire_run_1_1:
  "fire always_zero 0
     (run \<lparr>simulations =
            [\<lparr>zombies = 1, day = 0, houses = [False], timer = None, onDone = AddAndRender\<rparr>],
          results = [], page = None, intervals = [], next_timer = 1, calls = []\<rparr>) =
     \<lparr>simulations =
        [\<lparr>zombies = 2, day = 1, houses = [True], timer = Some 1, onDone = AddAndRender\<rparr>],
      results = [1],
      page = Some \<lparr>iterations = 1, averageDays = Number 1\<rparr>,
      intervals = [], next_timer = 2, calls = [(0, 1)]\<rparr>"
  by (simp add: run_def fire_def tick_def tick_loop.simps enter_def randomHouseNumber_def
      always_zero_def the_draw.rep_eq all_infected_def stop_def call_onDone_def add_def
      start_def render_def plus_number_def divide_number_def to_number_small double_one)

lemma step_run_1_1:
  "step
     (run \<lparr>simulations =
            [\<lparr>zombies = 1, day = 0, houses = [False], timer = None, onDone = AddAndRender\<rparr>],
          results = [], page = None, intervals = [], next_timer = 1, calls = []\<rparr>)
     (fire always_zero 0
       (run \<lparr>simulations =
              [\<lparr>zombies = 1, day = 0, houses = [False], timer = None, onDone = AddAndRender\<rparr>],
            results = [], page = None, intervals = [], next_timer = 1, calls = []\<rparr>))"
  by (rule step.fires [of 1]) (simp add: run_def start_def)

lemma step_2_1:
  "step
     \<lparr>simulations =
        [\<lparr>zombies = 1, day = 0, houses = [False], timer = Some 1, onDone = AddAndStart 1\<rparr>,
         \<lparr>zombies = 1, day = 0, houses = [False], timer = None, onDone = AddAndRender\<rparr>],
      results = [], page = None, intervals = [(1, 0)], next_timer = 2, calls = []\<rparr>
     (fire always_zero 0
       \<lparr>simulations =
          [\<lparr>zombies = 1, day = 0, houses = [False], timer = Some 1, onDone = AddAndStart 1\<rparr>,
           \<lparr>zombies = 1, day = 0, houses = [False], timer = None, onDone = AddAndRender\<rparr>],
        results = [], page = None, intervals = [(1, 0)], next_timer = 2, calls = []\<rparr>)"
  by (rule step.fires [of 1]) simp


section \<open>The runs of an application\<close>

lemma sequenced_D:
  assumes "sequenced k a"
  shows "length (simulations a) = k" and "length (results a) \<le> k"
    and "length (results a) < k \<Longrightarrow>
           \<exists>t. intervals a = [(t, length (results a))]
             \<and> timer (simulations a ! length (results a)) = Some t"
    and "\<not> length (results a) < k \<Longrightarrow> intervals a = []"
    and "i < length (results a) \<Longrightarrow>
           all_infected (houses (simulations a ! i)) \<and> results a ! i = day (simulations a ! i)"
    and "i < k \<Longrightarrow> length (results a) < i \<Longrightarrow> timer (simulations a ! i) = None"
    and "calls a = map (\<lambda>i. (i, results a ! i)) [0..<length (results a)]"
    and "page a = (if length (results a) < k then None else Some (render (results a)))"
proof -
  from assms have
    1: "length (simulations a) = k" and 2: "length (results a) \<le> k"
    and 4: "if length (results a) < k
       then \<exists>t. intervals a = [(t, length (results a))]
              \<and> timer (simulations a ! length (results a)) = Some t
       else intervals a = []"
    and 5: "\<forall>i<length (results a). all_infected (houses (simulations a ! i))
         \<and> results a ! i = day (simulations a ! i)"
    and 6: "\<forall>i<k. length (results a) < i \<longrightarrow> timer (simulations a ! i) = None"
    and 7: "calls a = map (\<lambda>i. (i, results a ! i)) [0..<length (results a)]"
    and 8: "page a = (if length (results a) < k then None else Some (render (results a)))"
    unfolding sequenced_def by blast+
  show "length (simulations a) = k" by (rule 1)
  show "length (results a) \<le> k" by (rule 2)
  show "length (results a) < k \<Longrightarrow>
           \<exists>t. intervals a = [(t, length (results a))]
             \<and> timer (simulations a ! length (results a)) = Some t"
    using 4 by simp
  show "\<not> length (results a) < k \<Longrightarrow> intervals a = []"
    using 4 by simp
  show "i < length (results a) \<Longrightarrow>
           all_infected (houses (simulations a ! i)) \<and> results a ! i = day (simulations a ! i)"
    using 5 by blast
  show "i < k \<Longrightarrow> length (results a) < i \<Longrightarrow> timer (simulations a ! i) = None"
    using 6 by blast
  show "calls a = map (\<lambda>i. (i, results a ! i)) [0..<length (results a)]" by (rule 7)
  show "page a = (if length (results a) < k then None else Some (render (results a)))"
    by (rule 8)
qed

lemma sequenced_intervals:
  assumes "sequenced k a" and "(t, i) \<in> set (intervals a)"
  shows "i = length (results a)" and "intervals a = [(t, i)]"
proof -
  have "length (results a) < k"
    using sequenced_D(4) [OF assms(1)] assms(2) by fastforce
  from sequenced_D(3) [OF assms(1) this] assms(2)
  show "i = length (results a)" and "intervals a = [(t, i)]"
    by auto
qed

text \<open>
  C4: in every state that an application constructed without error reaches after
  \<open>run()\<close>, callback by callback, at most one timer is running, and it is the timer of
  the run whose position is the number of results recorded so far. A run that has been
  started has at most that position, so every run before it has its result recorded. A
  run that has been started and still has an uninfected house is at that position, so
  there is at most one such run. Every run whose result is recorded is complete, has no
  running timer, and the result recorded for it is its day counter.
\<close>

theorem runs_one_after_another:
  assumes "Application numberOfSimulations numberOfHouses = Inr a0"
    and "step\<^sup>*\<^sup>* (run a0) a"
  shows "length (intervals a) \<le> 1
       \<and> (\<forall>t i. (t, i) \<in> set (intervals a) \<longrightarrow> i = length (results a))
       \<and> (\<forall>i<length (simulations a).
            timer (simulations a ! i) \<noteq> None \<longrightarrow> i \<le> length (results a))
       \<and> (\<forall>i<length (simulations a).
            timer (simulations a ! i) \<noteq> None \<and> \<not> all_infected (houses (simulations a ! i))
            \<longrightarrow> i = length (results a))
       \<and> (\<forall>i<length (results a).
            all_infected (houses (simulations a ! i))
            \<and> results a ! i = day (simulations a ! i)
            \<and> (\<forall>t. (t, i) \<notin> set (intervals a)))"
proof -
  note sq = sequenced_reachable [OF assms]
  have len: "length (simulations a) = nat numberOfSimulations"
    by (rule sequenced_D(1) [OF sq])
  have one: "length (intervals a) \<le> 1"
  proof (cases "intervals a")
    case Nil
    then show ?thesis by simp
  next
    case (Cons p ps)
    obtain t i where "p = (t, i)"
      by (cases p)
    with Cons have "(t, i) \<in> set (intervals a)"
      by simp
    from sequenced_intervals(2) [OF sq this] show ?thesis
      by simp
  qed
  have run: "i = length (results a)" if "(t, i) \<in> set (intervals a)" for t i
    by (rule sequenced_intervals(1) [OF sq that])
  have started: "i \<le> length (results a)"
    if "i < length (simulations a)" and "timer (simulations a ! i) \<noteq> None" for i
  proof (rule ccontr)
    assume "\<not> i \<le> length (results a)"
    then have "length (results a) < i"
      by simp
    from sequenced_D(6) [OF sq _ this] that(1) len have "timer (simulations a ! i) = None"
      by simp
    with that(2) show False
      by simp
  qed
  have recorded: "all_infected (houses (simulations a ! i))
      \<and> results a ! i = day (simulations a ! i) \<and> (\<forall>t. (t, i) \<notin> set (intervals a))"
    if "i < length (results a)" for i
  proof -
    have "(t, i) \<notin> set (intervals a)" for t
      using run [of t i] that by auto
    with sequenced_D(5) [OF sq that] show ?thesis
      by simp
  qed
  have active: "i = length (results a)"
    if "i < length (simulations a)" and "timer (simulations a ! i) \<noteq> None"
      and "\<not> all_infected (houses (simulations a ! i))" for i
  proof (cases "i < length (results a)")
    case True
    with recorded [of i] that(3) show ?thesis
      by simp
  next
    case False
    with started [OF that(1,2)] show ?thesis
      by simp
  qed
  show ?thesis
  proof (intro conjI allI impI)
    show "length (intervals a) \<le> 1"
      by (rule one)
  next
    fix t i
    assume "(t, i) \<in> set (intervals a)"
    then show "i = length (results a)"
      by (rule run)
  next
    fix i
    assume "i < length (simulations a)" and "timer (simulations a ! i) \<noteq> None"
    then show "i \<le> length (results a)"
      by (rule started)
  next
    fix i
    assume "i < length (simulations a)"
      and "timer (simulations a ! i) \<noteq> None \<and> \<not> all_infected (houses (simulations a ! i))"
    then show "i = length (results a)"
      using active by blast
  next
    fix i
    assume "i < length (results a)"
    then show "all_infected (houses (simulations a ! i))"
      and "results a ! i = day (simulations a ! i)"
      using recorded by blast+
  next
    fix i t
    assume "i < length (results a)"
    then show "(t, i) \<notin> set (intervals a)"
      using recorded by blast
  qed
qed

theorem runs_one_after_another_witness:
  "Application 2 1 =
     Inr \<lparr>simulations =
            [\<lparr>zombies = 1, day = 0, houses = [False], timer = None, onDone = AddAndStart 1\<rparr>,
             \<lparr>zombies = 1, day = 0, houses = [False], timer = None, onDone = AddAndRender\<rparr>],
          results = [], page = None, intervals = [], next_timer = 1, calls = []\<rparr>
   \<and> step\<^sup>*\<^sup>*
       (run \<lparr>simulations =
            [\<lparr>zombies = 1, day = 0, houses = [False], timer = None, onDone = AddAndStart 1\<rparr>,
             \<lparr>zombies = 1, day = 0, houses = [False], timer = None, onDone = AddAndRender\<rparr>],
          results = [], page = None, intervals = [], next_timer = 1, calls = []\<rparr>)
       \<lparr>simulations =
          [\<lparr>zombies = 2, day = 1, houses = [True], timer = Some 1, onDone = AddAndStart 1\<rparr>,
           \<lparr>zombies = 1, day = 0, houses = [False], timer = Some 2, onDone = AddAndRender\<rparr>],
        results = [1], page = None, intervals = [(2, 1)], next_timer = 3, calls = [(0, 1)]\<rparr>
   \<and> length (intervals
       \<lparr>simulations =
          [\<lparr>zombies = 2, day = 1, houses = [True], timer = Some 1, onDone = AddAndStart 1\<rparr>,
           \<lparr>zombies = 1, day = 0, houses = [False], timer = Some 2, onDone = AddAndRender\<rparr>],
        results = [1], page = None, intervals = [(2, 1)], next_timer = 3,
        calls = [(0, 1)]\<rparr>) \<le> 1"
proof -
  have reach: "step\<^sup>*\<^sup>*
       (run \<lparr>simulations =
            [\<lparr>zombies = 1, day = 0, houses = [False], timer = None, onDone = AddAndStart 1\<rparr>,
             \<lparr>zombies = 1, day = 0, houses = [False], timer = None, onDone = AddAndRender\<rparr>],
          results = [], page = None, intervals = [], next_timer = 1, calls = []\<rparr>)
       \<lparr>simulations =
          [\<lparr>zombies = 2, day = 1, houses = [True], timer = Some 1, onDone = AddAndStart 1\<rparr>,
           \<lparr>zombies = 1, day = 0, houses = [False], timer = Some 2, onDone = AddAndRender\<rparr>],
        results = [1], page = None, intervals = [(2, 1)], next_timer = 3, calls = [(0, 1)]\<rparr>"
    using step_2_1 unfolding fire_2_1 run_2_1 by (rule r_into_rtranclp)
  have "length (intervals
       \<lparr>simulations =
          [\<lparr>zombies = 2, day = 1, houses = [True], timer = Some 1, onDone = AddAndStart 1\<rparr>,
           \<lparr>zombies = 1, day = 0, houses = [False], timer = Some 2, onDone = AddAndRender\<rparr>],
        results = [1], page = None, intervals = [(2, 1)], next_timer = 3,
        calls = [(0, 1)]\<rparr>) \<le> 1"
    using runs_one_after_another [OF Application_2_1 reach] by (rule conjunct1)
  with Application_2_1 reach show ?thesis
    by (intro conjI)
qed

text \<open>
  C8: take an application constructed without error, with at least one house for each
  run, in a state \<open>a\<close> that it reaches after \<open>run()\<close>, and let one more callback lead to
  \<open>a'\<close>. The calls of \<open>onDone\<close> made up to \<open>a\<close> are one for each complete run, in the
  order of the runs, each with the day counter of its run; a run is complete exactly if
  it has made its call, and then no timer is left to tick it again. The callback adds
  one call, by the run ticked and with its day counter, if that run has become complete
  in it, and no call otherwise.
\<close>

theorem done_exactly_once:
  assumes "Application numberOfSimulations numberOfHouses = Inr a0"
    and "1 \<le> numberOfHouses"
    and "step\<^sup>*\<^sup>* (run a0) a" and "step a a'"
  shows "calls a = map (\<lambda>i. (i, day (simulations a ! i))) [0..<length (calls a)]
       \<and> (\<forall>i<length (simulations a).
            i < length (calls a) \<longleftrightarrow> all_infected (houses (simulations a ! i)))
       \<and> (\<forall>i<length (calls a). \<forall>t. (t, i) \<notin> set (intervals a))
       \<and> calls a' =
           (if all_infected (houses (simulations a' ! length (calls a)))
            then calls a @ [(length (calls a), day (simulations a' ! length (calls a)))]
            else calls a)"
proof -
  note sq = sequenced_reachable [OF assms(1,3)]
  note u = unfinished_reachable [OF assms(1,2,3), unfolded unfinished_def]
  have len: "length (calls a) = length (results a)"
    by (simp add: sequenced_D(7) [OF sq])
  have "map (\<lambda>i. (i, results a ! i)) [0..<length (results a)] =
      map (\<lambda>i. (i, day (simulations a ! i))) [0..<length (results a)]"
    using sequenced_D(5) [OF sq] by simp
  then have c: "calls a = map (\<lambda>i. (i, day (simulations a ! i))) [0..<length (calls a)]"
    unfolding len using sequenced_D(7) [OF sq] by simp
  have once: "i < length (calls a) \<longleftrightarrow> all_infected (houses (simulations a ! i))"
    if "i < length (simulations a)" for i
  proof (cases "i < length (results a)")
    case True
    with sequenced_D(5) [OF sq True] show ?thesis
      by (simp add: len)
  next
    case False
    with u that show ?thesis
      by (simp add: len)
  qed
  have stopped: "(t, i) \<notin> set (intervals a)" if "i < length (calls a)" for t i
    using sequenced_intervals(1) [OF sq, of t i] that by (auto simp: len)
  from assms(4) obtain t i rnd where ti: "(t, i) \<in> set (intervals a)"
    and a': "a' = fire rnd i a"
    by (auto elim: step.cases)
  obtain s' d where td: "tick rnd (simulations a ! i) = (s', d)"
    by (cases "tick rnd (simulations a ! i)")
  note f = fire_cases [OF sq ti td]
  have k: "length (simulations a) = nat numberOfSimulations"
    by (rule sequenced_D(1) [OF sq])
  have d: "d = all_infected (houses s')"
    using tick_done [of rnd "simulations a ! i"] td by simp
  have step: "calls a' =
           (if all_infected (houses (simulations a' ! length (calls a)))
            then calls a @ [(length (calls a), day (simulations a' ! length (calls a)))]
            else calls a)"
  proof (cases d)
    case False
    with f(1,2) k d show ?thesis
      unfolding a' f(3) [OF False] len by simp
  next
    case True
    show ?thesis
    proof (cases "Suc i = nat numberOfSimulations")
      case last: True
      with f(1,2) k d True show ?thesis
        unfolding a' f(4) [OF True last] len by simp
    next
      case more: False
      with f(1,2) k d True show ?thesis
        unfolding a' f(5) [OF True more] len by simp
    qed
  qed
  show ?thesis
  proof (intro conjI allI impI)
    show "calls a = map (\<lambda>i. (i, day (simulations a ! i))) [0..<length (calls a)]"
      by (rule c)
  next
    fix i
    assume "i < length (simulations a)"
    then show "i < length (calls a) \<longleftrightarrow> all_infected (houses (simulations a ! i))"
      by (rule once)
  next
    fix i t
    assume "i < length (calls a)"
    then show "(t, i) \<notin> set (intervals a)"
      by (rule stopped)
  next
    show "calls a' =
           (if all_infected (houses (simulations a' ! length (calls a)))
            then calls a @ [(length (calls a), day (simulations a' ! length (calls a)))]
            else calls a)"
      by (rule step)
  qed
qed

theorem done_exactly_once_witness:
  "Application 2 1 =
     Inr \<lparr>simulations =
            [\<lparr>zombies = 1, day = 0, houses = [False], timer = None, onDone = AddAndStart 1\<rparr>,
             \<lparr>zombies = 1, day = 0, houses = [False], timer = None, onDone = AddAndRender\<rparr>],
          results = [], page = None, intervals = [], next_timer = 1, calls = []\<rparr>
   \<and> (1 :: int) \<le> 1
   \<and> step
       (run \<lparr>simulations =
            [\<lparr>zombies = 1, day = 0, houses = [False], timer = None, onDone = AddAndStart 1\<rparr>,
             \<lparr>zombies = 1, day = 0, houses = [False], timer = None, onDone = AddAndRender\<rparr>],
          results = [], page = None, intervals = [], next_timer = 1, calls = []\<rparr>)
       \<lparr>simulations =
          [\<lparr>zombies = 2, day = 1, houses = [True], timer = Some 1, onDone = AddAndStart 1\<rparr>,
           \<lparr>zombies = 1, day = 0, houses = [False], timer = Some 2, onDone = AddAndRender\<rparr>],
        results = [1], page = None, intervals = [(2, 1)], next_timer = 3, calls = [(0, 1)]\<rparr>
   \<and> calls
       \<lparr>simulations =
          [\<lparr>zombies = 2, day = 1, houses = [True], timer = Some 1, onDone = AddAndStart 1\<rparr>,
           \<lparr>zombies = 1, day = 0, houses = [False], timer = Some 2, onDone = AddAndRender\<rparr>],
        results = [1], page = None, intervals = [(2, 1)], next_timer = 3,
        calls = [(0, 1)]\<rparr> = [(0, 1)]"
proof -
  have st: "step
       (run \<lparr>simulations =
            [\<lparr>zombies = 1, day = 0, houses = [False], timer = None, onDone = AddAndStart 1\<rparr>,
             \<lparr>zombies = 1, day = 0, houses = [False], timer = None, onDone = AddAndRender\<rparr>],
          results = [], page = None, intervals = [], next_timer = 1, calls = []\<rparr>)
       \<lparr>simulations =
          [\<lparr>zombies = 2, day = 1, houses = [True], timer = Some 1, onDone = AddAndStart 1\<rparr>,
           \<lparr>zombies = 1, day = 0, houses = [False], timer = Some 2, onDone = AddAndRender\<rparr>],
        results = [1], page = None, intervals = [(2, 1)], next_timer = 3, calls = [(0, 1)]\<rparr>"
    using step_2_1 unfolding fire_2_1 run_2_1 .
  from done_exactly_once [OF Application_2_1 _ rtranclp.rtrancl_refl st] Application_2_1 st
  show ?thesis
    by simp
qed

text \<open>
  C7: the constructor throws for a \<^verbatim>\<open>numberOfSimulations\<close> below 1, a RangeError of
  \<^verbatim>\<open>new Array\<close> for a negative one and the TypeError of \<^verbatim>\<open>reduce\<close> on the empty array
  for 0. And whenever an application constructed without error has written its summary
  to the page, the summary counts at least one result and its average is a number.
\<close>

theorem numberOfSimulations_below_one_rejected:
  "(numberOfSimulations < 1 \<longrightarrow>
      (\<exists>e. Application numberOfSimulations numberOfHouses = Inl e))
   \<and> (Application k h = Inr a0 \<and> step\<^sup>*\<^sup>* (run a0) a \<and> page a = Some sm \<longrightarrow>
        1 \<le> k \<and> 1 \<le> iterations sm \<and> averageDays sm \<noteq> NaN)"
proof -
  have "1 \<le> k \<and> 1 \<le> iterations sm \<and> averageDays sm \<noteq> NaN"
    if c: "Application k h = Inr a0" and r: "step\<^sup>*\<^sup>* (run a0) a" and p: "page a = Some sm"
  proof -
    note sq = sequenced_reachable [OF c r]
    have k: "1 \<le> k"
      by (rule Application_Inr(1) [OF c])
    have full: "\<not> length (results a) < nat k"
      using sequenced_D(8) [OF sq] p by (auto split: if_splits)
    then have "length (results a) = nat k" and "sm = render (results a)"
      using sequenced_D(2,8) [OF sq] p by simp_all
    moreover have "results a \<noteq> []"
      using \<open>length (results a) = nat k\<close> k by auto
    ultimately show ?thesis
      using k render_not_NaN [of "results a"] by (simp add: render_def Let_def)
  qed
  then show ?thesis
    by (simp add: Application_rejects)
qed

theorem numberOfSimulations_below_one_rejected_witness:
  "(0 :: int) < 1
   \<and> (\<exists>e. Application 0 100 = Inl e)
   \<and> Application 1 1 =
       Inr \<lparr>simulations =
              [\<lparr>zombies = 1, day = 0, houses = [False], timer = None, onDone = AddAndRender\<rparr>],
            results = [], page = None, intervals = [], next_timer = 1, calls = []\<rparr>
   \<and> step\<^sup>*\<^sup>*
       (run \<lparr>simulations =
              [\<lparr>zombies = 1, day = 0, houses = [False], timer = None, onDone = AddAndRender\<rparr>],
            results = [], page = None, intervals = [], next_timer = 1, calls = []\<rparr>)
       (fire always_zero 0
         (run \<lparr>simulations =
              [\<lparr>zombies = 1, day = 0, houses = [False], timer = None, onDone = AddAndRender\<rparr>],
            results = [], page = None, intervals = [], next_timer = 1, calls = []\<rparr>))
   \<and> page (fire always_zero 0
       (run \<lparr>simulations =
              [\<lparr>zombies = 1, day = 0, houses = [False], timer = None, onDone = AddAndRender\<rparr>],
            results = [], page = None, intervals = [], next_timer = 1, calls = []\<rparr>)) =
       Some \<lparr>iterations = 1, averageDays = Number 1\<rparr>
   \<and> 1 \<le> iterations \<lparr>iterations = 1, averageDays = Number 1\<rparr>
   \<and> averageDays \<lparr>iterations = 1, averageDays = Number 1\<rparr> \<noteq> NaN"
proof -
  have z: "(0 :: int) < 1"
    by simp
  have p: "page (fire always_zero 0
       (run \<lparr>simulations =
              [\<lparr>zombies = 1, day = 0, houses = [False], timer = None, onDone = AddAndRender\<rparr>],
            results = [], page = None, intervals = [], next_timer = 1, calls = []\<rparr>)) =
       Some \<lparr>iterations = 1, averageDays = Number 1\<rparr>"
    by (subst fire_run_1_1) simp
  note r = r_into_rtranclp [of step, OF step_run_1_1]
  note t = numberOfSimulations_below_one_rejected
      [of 0 100 1 1 _ "fire always_zero 0
       (run \<lparr>simulations =
              [\<lparr>zombies = 1, day = 0, houses = [False], timer = None, onDone = AddAndRender\<rparr>],
            results = [], page = None, intervals = [], next_timer = 1, calls = []\<rparr>)"
        "\<lparr>iterations = 1, averageDays = Number 1\<rparr>"]
  have e: "\<exists>e. Application 0 100 = Inl e"
    using t [THEN conjunct1] z by (rule mp)
  note c = t [THEN conjunct2, THEN mp, OF conjI [OF Application_1_1 conjI [OF r p]]]
  have c1: "1 \<le> iterations \<lparr>iterations = 1, averageDays = Number 1\<rparr>"
    by (rule c [THEN conjunct2, THEN conjunct1])
  have c2: "averageDays \<lparr>iterations = 1, averageDays = Number 1\<rparr> \<noteq> NaN"
    by (rule c [THEN conjunct2, THEN conjunct2])
  from z e Application_1_1 r p c1 c2 show ?thesis
    by (intro conjI)
qed


end
